theory Spec2Isabelle
  imports Main "HOL-Library.Word"
begin

unbundle bit_operations_syntax

section \<open>Bytes, code units, paths\<close>

text \<open>
  A \<^verbatim>\<open>DataView\<close>/\<^verbatim>\<open>Uint8Array\<close> is a list of bytes; a JavaScript string is its sequence of
  UTF-16 code units (what \<^verbatim>\<open>charCodeAt\<close> reads and \<^verbatim>\<open>String.fromCharCode\<close> builds).
  A path segment is \<^verbatim>\<open>number | string\<close>; every number that reaches a path is a
  non-negative integer (an index accepted by \<^verbatim>\<open>key\<close>, a value read by \<^verbatim>\<open>getUint32\<close>,
  or the literal \<^verbatim>\<open>0xffff_ffff\<close>), so it is a \<open>nat\<close>, and \<^verbatim>\<open>setUint32\<close> stores it
  modulo \<open>2 ^ 32\<close>.
\<close>

type_synonym byte = "8 word"
type_synonym jsstring = "16 word list"

datatype segment = Num nat | Str jsstring

type_synonym path = "segment list"

datatype error =
    InvalidCodeUnit          \<comment> \<open>\<^verbatim>\<open>RangeError("Invalid UTF-16 code unit")\<close>\<close>
  | OutOfBounds              \<comment> \<open>\<^verbatim>\<open>RangeError\<close> of \<^verbatim>\<open>ArrayBuffer.resize\<close> or of a \<^verbatim>\<open>DataView\<close> access\<close>
  | UnknownPathTag           \<comment> \<open>\<^verbatim>\<open>TypeError("Unknown data type")\<close> of \<^verbatim>\<open>decodePath\<close>\<close>
  | UnknownValueTag          \<comment> \<open>\<^verbatim>\<open>RangeError("Unknown data type")\<close> of \<^verbatim>\<open>decodeScalar\<close>\<close>
  | UnsupportedType          \<comment> \<open>\<^verbatim>\<open>TypeError("Unsupported data type")\<close>\<close>
  | SyntaxError              \<comment> \<open>thrown by \<^verbatim>\<open>BigInt(s)\<close> or \<^verbatim>\<open>new RegExp(s)\<close>\<close>
  | InvalidArrayLength       \<comment> \<open>\<^verbatim>\<open>RangeError("Invalid array length")\<close>\<close>
  | InvalidLengthDescriptor  \<comment> \<open>\<^verbatim>\<open>TypeError("Invalid array length property descriptor")\<close>\<close>
  | InvalidDescriptor        \<comment> \<open>\<^verbatim>\<open>TypeError("Invalid property descriptor")\<close>\<close>
  | Cyclic                   \<comment> \<open>\<^verbatim>\<open>ReferenceError("Cyclic object")\<close>\<close>
  | Backend                  \<comment> \<open>an error reported by SQLite\<close>
  | StackOverflow            \<comment> \<open>\<^verbatim>\<open>RangeError("Maximum call stack size exceeded")\<close>\<close>

text \<open>The two snapshots of the codec and of the proxy handler that the repository holds.\<close>

datatype revision =
    TableTs   \<comment> \<open>\<^verbatim>\<open>src/src/table.ts\<close> with \<^verbatim>\<open>src/src/encoding.ts\<close>\<close>
  | ProxyTs   \<comment> \<open>\<^verbatim>\<open>src/src/proxy.ts\<close> with \<^verbatim>\<open>src/unnamed/part_000\<close>\<close>

subsection \<open>Big-endian stores of \<^verbatim>\<open>DataView\<close>\<close>

text \<open>
  The \<open>k\<close> low bytes of \<open>n\<close>, most significant first, and the number that a run of
  bytes stands for. A store keeps the value modulo \<open>256 ^ k\<close>, as \<^verbatim>\<open>setUint32\<close> does with
  \<^verbatim>\<open>ToUint32\<close>.
\<close>

fun be_bytes :: "nat \<Rightarrow> nat \<Rightarrow> byte list" where
  "be_bytes 0 n = []"
| "be_bytes (Suc k) n = be_bytes k (n div 256) @ [of_nat n]"

definition be_value :: "byte list \<Rightarrow> nat" where
  "be_value bs = foldl (\<lambda>acc b. acc * 256 + unat b) 0 bs"

definition setUint16 :: "16 word \<Rightarrow> byte list" where
  "setUint16 c = be_bytes 2 (unat c)"

definition setUint32 :: "nat \<Rightarrow> byte list" where
  "setUint32 n = be_bytes 4 n"

subsection \<open>\<^verbatim>\<open>increment\<close>\<close>

text \<open>
  \<^verbatim>\<open>copy[copy.length - 1]! += 1\<close> on a \<^verbatim>\<open>Uint8Array\<close> wraps modulo 256, as \<open>+\<close> on
  \<open>8 word\<close> does. The two snapshots differ in the result for the empty buffer only.
\<close>

definition ZERO_INCREMENT :: "byte list" where
  "ZERO_INCREMENT = [0xff]"

fun increment :: "revision \<Rightarrow> byte list \<Rightarrow> byte list" where
  "increment TableTs prefix =
     (if length prefix = 0 then [1] else butlast prefix @ [last prefix + 1])"
| "increment ProxyTs prefix =
     (if length prefix = 0 then ZERO_INCREMENT else butlast prefix @ [last prefix + 1])"

subsection \<open>\<^verbatim>\<open>encodePath\<close>\<close>

fun encodeString :: "jsstring \<Rightarrow> error + byte list" where
  "encodeString [] = Inr []"
| "encodeString (code # s) =
     (if code \<ge> 0xfffe then Inl InvalidCodeUnit
      else case encodeString s of
             Inl e \<Rightarrow> Inl e
           | Inr bs \<Rightarrow> Inr (setUint16 code @ bs))"

text \<open>
  The loop of \<^verbatim>\<open>encodePath\<close>; \<open>view\<close> is the buffer built so far. The buffer is created
  with \<^verbatim>\<open>maxByteLength: 65535\<close>, so \<^verbatim>\<open>resize\<close> beyond it throws.
\<close>

fun encodePath_loop :: "byte list \<Rightarrow> path \<Rightarrow> error + byte list" where
  "encodePath_loop view [] = Inr view"
| "encodePath_loop view (Num n # rest) =
     (if length view + 1 + 4 > 65535 then Inl OutOfBounds
      else encodePath_loop (view @ 0 # setUint32 n) rest)"
| "encodePath_loop view (Str s # rest) =
     (if length view + 1 + length s * 2 + 2 > 65535 then Inl OutOfBounds
      else case encodeString s of
             Inl e \<Rightarrow> Inl e
           | Inr bs \<Rightarrow> encodePath_loop (view @ 1 # bs @ setUint16 0xfffe) rest)"

definition encodePath :: "path \<Rightarrow> error + byte list" where
  "encodePath p = encodePath_loop [] p"

subsection \<open>The order of the primary key\<close>

text \<open>
  SQLite compares two BLOBs with \<^verbatim>\<open>memcmp\<close> on the common length and, when that is
  equal, the shorter one first.
\<close>

fun blob_less :: "byte list \<Rightarrow> byte list \<Rightarrow> bool" where
  "blob_less [] [] = False"
| "blob_less [] (y # ys) = True"
| "blob_less (x # xs) [] = False"
| "blob_less (x # xs) (y # ys) = (x < y \<or> (x = y \<and> blob_less xs ys))"

definition blob_le :: "byte list \<Rightarrow> byte list \<Rightarrow> bool" where
  "blob_le a b = (a = b \<or> blob_less a b)"

subsection \<open>\<^verbatim>\<open>decodePath\<close>\<close>

definition getUint16 :: "byte \<Rightarrow> byte \<Rightarrow> 16 word" where
  "getUint16 hi lo = of_nat (be_value [hi, lo])"

definition getUint32 :: "byte list \<Rightarrow> nat" where
  "getUint32 bs = be_value (take 4 bs)"

text \<open>
  The generator \<^verbatim>\<open>decodeString\<close>, on the bytes from \<^verbatim>\<open>offset\<close> to the end of the buffer:
  it stops at the end or at the first code unit \<open>\<ge> 0xfffe\<close>, and \<^verbatim>\<open>getUint16\<close> on a
  single trailing byte throws.
\<close>

fun decodeString :: "byte list \<Rightarrow> error + jsstring" where
  "decodeString [] = Inr []"
| "decodeString [b] = Inl OutOfBounds"
| "decodeString (hi # lo # rest) =
     (let code = getUint16 hi lo
      in if code \<ge> 0xfffe then Inr []
         else case decodeString rest of
                Inl e \<Rightarrow> Inl e
              | Inr s \<Rightarrow> Inr (code # s))"

text \<open>
  The loop of \<^verbatim>\<open>decodePath\<close>, on the bytes from index \<open>i\<close> to the end. After a string
  segment the index moves by \<^verbatim>\<open>1 + segment.length * 2 + 2\<close>, whether or not the
  terminator was there.
\<close>

function decodePath :: "byte list \<Rightarrow> error + path" where
  "decodePath [] = Inr []"
| "decodePath (tag # bs) =
     (if tag = 0 then
        (if length bs < 4 then Inl OutOfBounds
         else case decodePath (drop 4 bs) of
                Inl e \<Rightarrow> Inl e
              | Inr p \<Rightarrow> Inr (Num (getUint32 bs) # p))
      else if tag = 1 then
        (case decodeString bs of
           Inl e \<Rightarrow> Inl e
         | Inr segment \<Rightarrow>
             (case decodePath (drop (length segment * 2 + 2) bs) of
                Inl e \<Rightarrow> Inl e
              | Inr p \<Rightarrow> Inr (Str segment # p)))
      else Inl UnknownPathTag)"
  by pat_completeness auto
termination
  by (relation "measure length") auto

subsection \<open>The bytes of a path, and the order they induce\<close>

text \<open>What \<^verbatim>\<open>encodePath\<close> appends for one segment when it does not throw.\<close>

fun segment_bytes :: "segment \<Rightarrow> byte list" where
  "segment_bytes (Num n) = 0 # setUint32 n"
| "segment_bytes (Str s) = 1 # concat (map setUint16 s) @ setUint16 0xfffe"

definition path_bytes :: "path \<Rightarrow> byte list" where
  "path_bytes p = concat (map segment_bytes p)"

text \<open>
  A segment as the handlers build it: a number below \<open>2 ^ 32\<close>, or a string whose code
  units are all below \<open>0xFFFE\<close>.
\<close>

abbreviation units_ok :: "jsstring \<Rightarrow> bool" where
  "units_ok s \<equiv> list_all (\<lambda>c. c < 0xfffe) s"

fun valid_segment :: "segment \<Rightarrow> bool" where
  "valid_segment (Num n) = (n < 2 ^ 32)"
| "valid_segment (Str s) = units_ok s"

text \<open>
  The order of segments that the encoding realises. Numbers come before strings and
  compare by value. Strings compare code unit by code unit, and where one string ends
  and the other goes on, the one that goes on comes first: the terminator \<open>0xFFFE\<close> is
  above every code unit.
\<close>

fun units_less :: "jsstring \<Rightarrow> jsstring \<Rightarrow> bool" where
  "units_less [] t = False"
| "units_less (x # xs) [] = True"
| "units_less (x # xs) (y # ys) = (x < y \<or> (x = y \<and> units_less xs ys))"

fun segment_less :: "segment \<Rightarrow> segment \<Rightarrow> bool" where
  "segment_less (Num a) (Num b) = (a < b)"
| "segment_less (Num a) (Str t) = True"
| "segment_less (Str s) (Num b) = False"
| "segment_less (Str s) (Str t) = units_less s t"

text \<open>Paths compare segment by segment; a path comes before its extensions.\<close>

fun path_less :: "path \<Rightarrow> path \<Rightarrow> bool" where
  "path_less [] [] = False"
| "path_less [] (t # q) = True"
| "path_less (s # p) [] = False"
| "path_less (s # p) (t # q) = (segment_less s t \<or> (s = t \<and> path_less p q))"

text \<open>
  The order of the specification, in which strings compare by their code units alone
  (a string comes before the strings it is a proper prefix of).
\<close>

fun units_less_spec :: "jsstring \<Rightarrow> jsstring \<Rightarrow> bool" where
  "units_less_spec [] [] = False"
| "units_less_spec [] (y # ys) = True"
| "units_less_spec (x # xs) [] = False"
| "units_less_spec (x # xs) (y # ys) = (x < y \<or> (x = y \<and> units_less_spec xs ys))"

fun segment_less_spec :: "segment \<Rightarrow> segment \<Rightarrow> bool" where
  "segment_less_spec (Num a) (Num b) = (a < b)"
| "segment_less_spec (Num a) (Str t) = True"
| "segment_less_spec (Str s) (Num b) = False"
| "segment_less_spec (Str s) (Str t) = units_less_spec s t"

fun path_less_spec :: "path \<Rightarrow> path \<Rightarrow> bool" where
  "path_less_spec [] [] = False"
| "path_less_spec [] (t # q) = True"
| "path_less_spec (s # p) [] = False"
| "path_less_spec (s # p) (t # q) = (segment_less_spec s t \<or> (s = t \<and> path_less_spec p q))"

section \<open>The value codec\<close>

subsection \<open>JavaScript values\<close>

text \<open>
  A number is the bit pattern that \<^verbatim>\<open>setFloat64\<close> stores and \<^verbatim>\<open>getFloat64\<close> reads back; a
  \<^verbatim>\<open>Date\<close> is the bit pattern of its time value; a \<^verbatim>\<open>RegExp\<close> is its \<^verbatim>\<open>source\<close> and its
  \<^verbatim>\<open>flags\<close>. Arrays and plain records are objects with an identity: \<open>Ref a\<close> is the
  object at address \<open>a\<close> of the heap. \<open>Other\<close> stands for every value the store does not
  support (a function, a symbol, an object with another prototype).
\<close>

datatype jsvalue =
    Undefined
  | Null
  | Boolean bool
  | Number "64 word"
  | String jsstring
  | BigInt int
  | Date "64 word"
  | RegExp jsstring jsstring
  | Ref nat
  | Other

text \<open>
  The value of a JavaScript number, for the arithmetic tests the handlers make:
  \<open>Finite neg num den\<close> is \<open>num / den\<close>, negative if \<open>neg\<close> (so that \<open>-0\<close> is
  \<open>Finite True 0 den\<close>).
\<close>

datatype jsnum = NaN | Infinite bool | Finite bool nat nat

text \<open>
  What the handlers ask of the JavaScript engine and this development leaves open:
  the \<^verbatim>\<open>source\<close> of \<^verbatim>\<open>new RegExp(s)\<close> (\<open>None\<close> where the constructor throws), the time
  value \<^verbatim>\<open>new Date(n)\<close> keeps of \<open>n\<close>, and \<^verbatim>\<open>Number(value)\<close> on a value that is not a
  primitive.
\<close>

record engine =
  RegExp_source :: "jsstring \<Rightarrow> jsstring option"
  TimeClip :: "64 word \<Rightarrow> 64 word"
  ToNumber_object :: "jsvalue \<Rightarrow> error + jsnum"

text \<open>An engine for the examples that never ask it anything.\<close>

definition example_engine :: engine where
  "example_engine =
     \<lparr>RegExp_source = (\<lambda>s. None), TimeClip = (\<lambda>n. n), ToNumber_object = (\<lambda>v. Inr NaN)\<rparr>"

subsection \<open>Strings of the standard library\<close>

definition ascii :: "string \<Rightarrow> jsstring" where
  "ascii s = map (\<lambda>c. of_nat (of_char c)) s"

text \<open>\<^verbatim>\<open>StrWhiteSpaceChar\<close> of ECMAScript: white space and line terminators.\<close>

definition isWhiteSpace :: "16 word \<Rightarrow> bool" where
  "isWhiteSpace c = (c \<in> {0x9, 0xa, 0xb, 0xc, 0xd, 0x20, 0xa0, 0x1680, 0x2028, 0x2029,
                          0x202f, 0x205f, 0x3000, 0xfeff} \<or> (0x2000 \<le> c \<and> c \<le> 0x200a))"

definition trim :: "jsstring \<Rightarrow> jsstring" where
  "trim s = rev (dropWhile isWhiteSpace (rev (dropWhile isWhiteSpace s)))"

definition digit_value :: "16 word \<Rightarrow> nat option" where
  "digit_value c =
     (if 0x30 \<le> c \<and> c \<le> 0x39 then Some (unat c - 0x30)
      else if 0x61 \<le> c \<and> c \<le> 0x66 then Some (unat c - 0x61 + 10)
      else if 0x41 \<le> c \<and> c \<le> 0x46 then Some (unat c - 0x41 + 10)
      else None)"

text \<open>The digits of \<open>s\<close> in base \<open>b\<close>, most significant first, added to \<open>acc\<close>.\<close>

fun parse_digits_from :: "nat \<Rightarrow> nat \<Rightarrow> jsstring \<Rightarrow> nat option" where
  "parse_digits_from b acc [] = Some acc"
| "parse_digits_from b acc (c # s) =
     (case digit_value c of
        None \<Rightarrow> None
      | Some d \<Rightarrow> if d < b then parse_digits_from b (acc * b + d) s else None)"

definition parse_digits :: "nat \<Rightarrow> jsstring \<Rightarrow> nat option" where
  "parse_digits b s = (if s = [] then None else parse_digits_from b 0 s)"

text \<open>\<^verbatim>\<open>NonDecimalIntegerLiteral\<close>: \<^verbatim>\<open>0x\<close>, \<^verbatim>\<open>0o\<close> or \<^verbatim>\<open>0b\<close> in either case, then digits.\<close>

definition radix_prefix :: "jsstring \<Rightarrow> nat option" where
  "radix_prefix t =
     (case t of
        z # x # _ \<Rightarrow>
          if z \<noteq> 0x30 then None
          else if x = 0x78 \<or> x = 0x58 then Some 16
          else if x = 0x6f \<or> x = 0x4f then Some 8
          else if x = 0x62 \<or> x = 0x42 then Some 2
          else None
      | _ \<Rightarrow> None)"

text \<open>\<^verbatim>\<open>BigInt.prototype.toString()\<close>: the decimal digits, after a minus sign if negative.\<close>

function dec_digits :: "nat \<Rightarrow> jsstring" where
  "dec_digits n =
     (if n < 10 then [0x30 + of_nat n]
      else dec_digits (n div 10) @ [0x30 + of_nat (n mod 10)])"
  by pat_completeness auto
termination
  by (relation "measure id") auto

declare dec_digits.simps [simp del]

definition BigInt_toString :: "int \<Rightarrow> jsstring" where
  "BigInt_toString i = (if i < 0 then 0x2d # dec_digits (nat (- i)) else dec_digits (nat i))"

text \<open>
  \<^verbatim>\<open>BigInt(s)\<close> on a string (\<^verbatim>\<open>StringToBigInt\<close>): white space is trimmed, the empty string is
  \<open>0\<close>, then a signed decimal integer or an unsigned literal with a radix prefix;
  anything else is a \<^verbatim>\<open>SyntaxError\<close>.
\<close>

definition StringToBigInt :: "jsstring \<Rightarrow> int option" where
  "StringToBigInt s =
     (let t = trim s
      in if t = [] then Some 0
         else case radix_prefix t of
                Some b \<Rightarrow> map_option int (parse_digits b (drop 2 t))
              | None \<Rightarrow>
                  if hd t = 0x2b then map_option int (parse_digits 10 (tl t))
                  else if hd t = 0x2d then map_option (\<lambda>n. - int n) (parse_digits 10 (tl t))
                  else map_option int (parse_digits 10 t))"

text \<open>\<^verbatim>\<open>RegExp.prototype.toString()\<close>: \<^verbatim>\<open>"/" + source + "/" + flags\<close>.\<close>

definition RegExp_toString :: "jsstring \<Rightarrow> jsstring \<Rightarrow> jsstring" where
  "RegExp_toString source flags = 0x2f # source @ 0x2f # flags"

subsection \<open>\<^verbatim>\<open>Number(value)\<close>\<close>

text \<open>
  Rounding of a non-negative rational \<open>a / b\<close> to the nearest double, ties to even
  (\<^verbatim>\<open>RoundMVResult\<close> of ECMAScript): 53 significant bits, the exponent not below the
  subnormal one, infinity from \<open>2 ^ 1024\<close> on.
\<close>

function bitlen :: "nat \<Rightarrow> nat" where
  "bitlen n = (if n = 0 then 0 else Suc (bitlen (n div 2)))"
  by pat_completeness auto
termination
  by (relation "measure id") auto

declare bitlen.simps [simp del]

definition round_half_even :: "nat \<Rightarrow> nat \<Rightarrow> nat" where
  "round_half_even a b =
     (let q = a div b; r = a mod b
      in if 2 * r < b then q
         else if b < 2 * r then q + 1
         else if even q then q else q + 1)"

text \<open>The greatest \<open>e\<close> with \<open>2 ^ e \<le> a / b\<close>, for positive \<open>a\<close> and \<open>b\<close>.\<close>

definition exponent2 :: "nat \<Rightarrow> nat \<Rightarrow> int" where
  "exponent2 a b =
     (let k = int (bitlen a) - int (bitlen b)
      in if b * 2 ^ nat k \<le> a * 2 ^ nat (- k) then k else k - 1)"

definition round64 :: "bool \<Rightarrow> nat \<Rightarrow> nat \<Rightarrow> jsnum" where
  "round64 neg a b =
     (if a = 0 then Finite neg 0 1
      else let s = max (exponent2 a b) (- 1022) - 52
           in if 0 \<le> s then
                (let v = round_half_even a (b * 2 ^ nat s) * 2 ^ nat s
                 in if 2 ^ 1024 \<le> v then Infinite neg else Finite neg v 1)
              else Finite neg (round_half_even (a * 2 ^ nat (- s)) b) (2 ^ nat (- s)))"

text \<open>
  \<^verbatim>\<open>StrUnsignedDecimalLiteral\<close> without \<^verbatim>\<open>Infinity\<close>: digits with an optional fraction and
  an optional exponent part. The result \<open>(m, k)\<close> stands for \<open>m * 10 ^ k\<close>.
\<close>

definition SignedInteger :: "jsstring \<Rightarrow> int option" where
  "SignedInteger x =
     (if x = [] then None
      else if hd x = 0x2b then map_option int (parse_digits 10 (tl x))
      else if hd x = 0x2d then map_option (\<lambda>n. - int n) (parse_digits 10 (tl x))
      else map_option int (parse_digits 10 x))"

definition StrUnsignedDecimalLiteral :: "jsstring \<Rightarrow> (nat \<times> int) option" where
  "StrUnsignedDecimalLiteral u =
     (let notE = (\<lambda>c. c \<noteq> 0x65 \<and> c \<noteq> 0x45);
          mant = takeWhile notE u;
          rest = dropWhile notE u;
          ip = takeWhile (\<lambda>c. c \<noteq> 0x2e) mant;
          dotfp = dropWhile (\<lambda>c. c \<noteq> 0x2e) mant;
          fp = tl dotfp
      in case (if rest = [] then Some 0 else SignedInteger (tl rest)) of
           None \<Rightarrow> None
         | Some k \<Rightarrow>
             if dotfp = [] then map_option (\<lambda>m. (m, k)) (parse_digits 10 ip)
             else if ip = [] \<and> fp = [] then None
             else map_option (\<lambda>m. (m, k - int (length fp))) (parse_digits_from 10 0 (ip @ fp)))"

text \<open>
  \<^verbatim>\<open>Number(s)\<close> on a string (\<^verbatim>\<open>StringToNumber\<close>): white space is trimmed and the empty
  string is \<open>0\<close>; an unsigned literal with a radix prefix, or a signed decimal literal
  or \<^verbatim>\<open>Infinity\<close>; anything else is \<^verbatim>\<open>NaN\<close>.
\<close>

definition StringToNumber :: "jsstring \<Rightarrow> jsnum" where
  "StringToNumber s =
     (let t = trim s
      in if t = [] then Finite False 0 1
         else case radix_prefix t of
                Some b \<Rightarrow>
                  (case parse_digits b (drop 2 t) of
                     None \<Rightarrow> NaN
                   | Some n \<Rightarrow> round64 False n 1)
              | None \<Rightarrow>
                  (let neg = (hd t = 0x2d);
                       u = (if hd t = 0x2b \<or> hd t = 0x2d then tl t else t)
                   in if u = ascii ''Infinity'' then Infinite neg
                      else case StrUnsignedDecimalLiteral u of
                             None \<Rightarrow> NaN
                           | Some (m, k) \<Rightarrow>
                               if 0 \<le> k then round64 neg (m * 10 ^ nat k) 1
                               else round64 neg m (10 ^ nat (- k))))"

text \<open>The value of a double, from its bit pattern.\<close>

definition decode_double :: "64 word \<Rightarrow> jsnum" where
  "decode_double w =
     (let neg = bit w 63;
          ex = unat (drop_bit 52 w AND 0x7ff);
          m = unat (w AND 0xfffffffffffff)
      in if ex = 2047 then (if m = 0 then Infinite neg else NaN)
         else if ex = 0 then Finite neg m (2 ^ 1074)
         else if 1075 \<le> ex then Finite neg ((2 ^ 52 + m) * 2 ^ (ex - 1075)) 1
         else Finite neg (2 ^ 52 + m) (2 ^ (1075 - ex)))"

text \<open>
  \<^verbatim>\<open>Number(value)\<close>. A \<^verbatim>\<open>Date\<close> gives its time value and a \<^verbatim>\<open>RegExp\<close> the number its
  \<^verbatim>\<open>toString()\<close> reads as; for the other objects the engine is asked.
\<close>

fun ToNumber :: "engine \<Rightarrow> jsvalue \<Rightarrow> error + jsnum" where
  "ToNumber E Null = Inr (Finite False 0 1)"
| "ToNumber E (Boolean b) = Inr (Finite False (if b then 1 else 0) 1)"
| "ToNumber E (Number w) = Inr (decode_double w)"
| "ToNumber E (String s) = Inr (StringToNumber s)"
| "ToNumber E (BigInt i) = Inr (round64 (i < 0) (nat \<bar>i\<bar>) 1)"
| "ToNumber E (Date n) = Inr (decode_double n)"
| "ToNumber E (RegExp source flags) = Inr (StringToNumber (RegExp_toString source flags))"
| "ToNumber E Undefined = Inr NaN"
| "ToNumber E v = ToNumber_object E v"

text \<open>\<^verbatim>\<open>Number.isSafeInteger(x) && x >= 0 && x < 0xffff_ffff\<close>, and the integer then.\<close>

fun index_of :: "jsnum \<Rightarrow> nat option" where
  "index_of (Finite neg num den) =
     (if den \<noteq> 0 \<and> num mod den = 0 \<and> num div den \<le> 2 ^ 53 - 1
         \<and> (\<not> neg \<or> num = 0) \<and> num div den < 0xffffffff
      then Some (num div den) else None)"
| "index_of _ = None"

text \<open>\<^verbatim>\<open>String(n)\<close> of a non-negative integer below \<open>2 ^ 32\<close>, and of a path segment.\<close>

fun String_of_segment :: "segment \<Rightarrow> jsstring" where
  "String_of_segment (Num n) = dec_digits n"
| "String_of_segment (Str s) = s"

text \<open>
  The string-keyed properties that \<^verbatim>\<open>Reflect.has(Array.prototype, prop)\<close> finds, on
  \<^verbatim>\<open>Array.prototype\<close> or on \<^verbatim>\<open>Object.prototype\<close> behind it, in an engine whose prototypes
  the program has not changed.
\<close>

definition Array_prototype_names :: "string list" where
  "Array_prototype_names =
     [''length'', ''constructor'', ''at'', ''concat'', ''copyWithin'', ''fill'', ''find'',
      ''findIndex'', ''findLast'', ''findLastIndex'', ''lastIndexOf'', ''pop'', ''push'',
      ''reverse'', ''shift'', ''unshift'', ''slice'', ''sort'', ''splice'', ''includes'',
      ''indexOf'', ''join'', ''keys'', ''entries'', ''values'', ''forEach'', ''filter'',
      ''flat'', ''flatMap'', ''map'', ''every'', ''some'', ''reduce'', ''reduceRight'',
      ''toReversed'', ''toSorted'', ''toSpliced'', ''with'', ''toLocaleString'', ''toString'',
      ''__defineGetter__'', ''__defineSetter__'', ''hasOwnProperty'', ''__lookupGetter__'',
      ''__lookupSetter__'', ''isPrototypeOf'', ''propertyIsEnumerable'', ''valueOf'',
      ''__proto__'']"

definition Array_prototype_has :: "jsstring \<Rightarrow> bool" where
  "Array_prototype_has prop = (prop \<in> set (map ascii Array_prototype_names))"

subsection \<open>\<^verbatim>\<open>key\<close>\<close>

definition key :: "jsstring \<Rightarrow> segment" where
  "key prop = (case index_of (StringToNumber prop) of Some index \<Rightarrow> Num index | None \<Rightarrow> Str prop)"

subsection \<open>\<^verbatim>\<open>encodeScalar\<close> and \<^verbatim>\<open>decodeScalar\<close>\<close>

text \<open>
  \<^verbatim>\<open>encodeValue\<close> and \<^verbatim>\<open>decodeValue\<close> of \<^verbatim>\<open>src/src/encoding.ts\<close> are the same two functions
  under their earlier names.
\<close>

definition setFloat64 :: "64 word \<Rightarrow> byte list" where
  "setFloat64 w = be_bytes 8 (unat w)"

definition getFloat64 :: "byte list \<Rightarrow> 64 word" where
  "getFloat64 bs = of_nat (be_value (take 8 bs))"

definition tagged :: "byte \<Rightarrow> error + byte list \<Rightarrow> error + byte list" where
  "tagged t r = (case r of Inl e \<Rightarrow> Inl e | Inr bs \<Rightarrow> Inr (t # bs))"

fun encodeScalar :: "jsvalue \<Rightarrow> error + byte list" where
  "encodeScalar (Boolean v) = Inr [if v then 1 else 2]"
| "encodeScalar (Number v) = Inr (3 # setFloat64 v)"
| "encodeScalar (String v) = tagged 4 (encodeString v)"
| "encodeScalar (BigInt v) = tagged 5 (encodeString (BigInt_toString v))"
| "encodeScalar Null = Inr [0]"
| "encodeScalar (Date n) = Inr (6 # setFloat64 n)"
| "encodeScalar (RegExp source flags) = tagged 7 (encodeString (RegExp_toString source flags))"
| "encodeScalar _ = Inl UnsupportedType"

fun decodeScalar :: "engine \<Rightarrow> byte list \<Rightarrow> error + jsvalue" where
  "decodeScalar E [] = Inl OutOfBounds"
| "decodeScalar E (tag # body) =
     (if tag = 0 then Inr Null
      else if tag = 1 then Inr (Boolean True)
      else if tag = 2 then Inr (Boolean False)
      else if tag = 3 then
        (if length body < 8 then Inl OutOfBounds else Inr (Number (getFloat64 body)))
      else if tag = 4 then
        (case decodeString body of Inl e \<Rightarrow> Inl e | Inr s \<Rightarrow> Inr (String s))
      else if tag = 5 then
        (case decodeString body of
           Inl e \<Rightarrow> Inl e
         | Inr s \<Rightarrow> (case StringToBigInt s of None \<Rightarrow> Inl SyntaxError | Some i \<Rightarrow> Inr (BigInt i)))
      else if tag = 6 then
        (if length body < 8 then Inl OutOfBounds
         else Inr (Date (TimeClip E (getFloat64 body))))
      else if tag = 7 then
        (case decodeString body of
           Inl e \<Rightarrow> Inl e
         | Inr s \<Rightarrow> (case RegExp_source E s of
                       None \<Rightarrow> Inl SyntaxError
                     | Some source \<Rightarrow> Inr (RegExp source [])))
      else Inl UnknownValueTag)"

subsection \<open>Composite markers\<close>

datatype ComplexType = RecordType | ArrayType

text \<open>\<^verbatim>\<open>OBJECT_TAGS\<close> of \<^verbatim>\<open>table.ts\<close> and \<^verbatim>\<open>COMPLEX_TAGS\<close> of the later codec.\<close>

definition OBJECT_TAGS_RECORD :: byte where "OBJECT_TAGS_RECORD = 0xff - 0"
definition OBJECT_TAGS_ARRAY :: byte where "OBJECT_TAGS_ARRAY = 0xff - 1"
definition COMPLEX_TAGS_RECORD :: byte where "COMPLEX_TAGS_RECORD = 0xff - 1"
definition COMPLEX_TAGS_ARRAY :: byte where "COMPLEX_TAGS_ARRAY = 0xff - 2"

text \<open>
  The marker a composite write stores: \<^verbatim>\<open>encodeComplex\<close> in the later codec, the
  one-byte view built in \<^verbatim>\<open>defineProperty\<close> of \<^verbatim>\<open>table.ts\<close>.
\<close>

fun encodeComplex :: "revision \<Rightarrow> ComplexType \<Rightarrow> byte list" where
  "encodeComplex TableTs type = [if type = ArrayType then OBJECT_TAGS_ARRAY else OBJECT_TAGS_RECORD]"
| "encodeComplex ProxyTs type = [if type = ArrayType then COMPLEX_TAGS_ARRAY else COMPLEX_TAGS_RECORD]"

text \<open>
  How a stored value is classified on a read: \<^verbatim>\<open>datatype\<close> in the later codec (which reads
  byte 0 and throws on an empty buffer), the \<^verbatim>\<open>switch (value[0])\<close> of
  \<^verbatim>\<open>getOwnPropertyDescriptor\<close> in \<^verbatim>\<open>table.ts\<close> (where an empty value falls to the default).
\<close>

datatype classification = IsRecord | IsArray | IsScalar

fun datatype_of :: "revision \<Rightarrow> byte list \<Rightarrow> error + classification" where
  "datatype_of TableTs [] = Inr IsScalar"
| "datatype_of TableTs (t # _) =
     Inr (if t = OBJECT_TAGS_RECORD then IsRecord
          else if t = OBJECT_TAGS_ARRAY then IsArray else IsScalar)"
| "datatype_of ProxyTs [] = Inl OutOfBounds"
| "datatype_of ProxyTs (t # _) =
     Inr (if t = COMPLEX_TAGS_RECORD then IsRecord
          else if t = COMPLEX_TAGS_ARRAY then IsArray else IsScalar)"

section \<open>The backing table\<close>

text \<open>
  One table \<^verbatim>\<open>(path BLOB PRIMARY KEY NOT NULL, value BLOB NOT NULL) WITHOUT ROWID\<close>: its rows,
  kept in the order of the primary key, and the rows as they were at \<^verbatim>\<open>BEGIN\<close> while a
  transaction is open.
\<close>

type_synonym row = "byte list \<times> byte list"

record database =
  rows :: "row list"
  saved :: "row list option"

datatype sql = BEGIN | COMMIT | ROLLBACK

fun exec :: "sql \<Rightarrow> database \<Rightarrow> error + database" where
  "exec BEGIN db = (if saved db \<noteq> None then Inl Backend else Inr (db\<lparr>saved := Some (rows db)\<rparr>))"
| "exec COMMIT db = (if saved db = None then Inl Backend else Inr (db\<lparr>saved := None\<rparr>))"
| "exec ROLLBACK db =
     (case saved db of
        None \<Rightarrow> Inl Backend
      | Some old \<Rightarrow> Inr (db\<lparr>rows := old, saved := None\<rparr>))"

text \<open>\<^verbatim>\<open>path >= :lower AND path < :upper\<close>\<close>

definition in_range :: "byte list \<Rightarrow> byte list \<Rightarrow> byte list \<Rightarrow> bool" where
  "in_range lower upper p = (blob_le lower p \<and> blob_less p upper)"

text \<open>The five prepared statements.\<close>

definition selectOne :: "database \<Rightarrow> byte list \<Rightarrow> byte list option" where
  "selectOne db p = map_of (rows db) p"

definition selectMany :: "database \<Rightarrow> byte list \<Rightarrow> byte list \<Rightarrow> row list" where
  "selectMany db lower upper = filter (\<lambda>r. in_range lower upper (fst r)) (rows db)"

fun insert_row :: "row \<Rightarrow> row list \<Rightarrow> row list" where
  "insert_row r [] = [r]"
| "insert_row r (x # xs) = (if blob_less (fst r) (fst x) then r # x # xs else x # insert_row r xs)"

definition insert_run :: "database \<Rightarrow> byte list \<Rightarrow> byte list \<Rightarrow> error + database" where
  "insert_run db p v =
     (if selectOne db p \<noteq> None then Inl Backend
      else Inr (db\<lparr>rows := insert_row (p, v) (rows db)\<rparr>))"

text \<open>\<^verbatim>\<open>delete.run\<close> gives the table without the rows of the range and \<^verbatim>\<open>result.changes\<close>.\<close>

definition delete_run :: "database \<Rightarrow> byte list \<Rightarrow> byte list \<Rightarrow> database \<times> nat" where
  "delete_run db lower upper =
     (db\<lparr>rows := filter (\<lambda>r. \<not> in_range lower upper (fst r)) (rows db)\<rparr>,
      length (filter (\<lambda>r. in_range lower upper (fst r)) (rows db)))"

fun greatest :: "byte list list \<Rightarrow> byte list option" where
  "greatest [] = None"
| "greatest (p # ps) =
     (case greatest ps of
        None \<Rightarrow> Some p
      | Some q \<Rightarrow> Some (if blob_less p q then q else p))"

text \<open>
  \<^verbatim>\<open>WHERE LENGTH(path) == LENGTH(:lower) AND path >= :lower AND path < :upper
  ORDER BY path DESC LIMIT 1\<close>
\<close>

definition length_get :: "database \<Rightarrow> byte list \<Rightarrow> byte list \<Rightarrow> byte list option" where
  "length_get db lower upper =
     greatest (map fst (filter (\<lambda>r. length (fst r) = length lower \<and> in_range lower upper (fst r))
                               (rows db)))"

text \<open>A row is stored at the encoded path \<open>p ++ [k]\<close>.\<close>

definition child_row :: "database \<Rightarrow> path \<Rightarrow> nat \<Rightarrow> bool" where
  "child_row db p k =
     (case encodePath (p @ [Num k]) of
        Inl e \<Rightarrow> False
      | Inr x \<Rightarrow> selectOne db x \<noteq> None)"

section \<open>The proxy handler\<close>

text \<open>
  The target of a proxy: \<^verbatim>\<open>[PROTOTYPE]\<close> (\<^verbatim>\<open>null\<close> for a record and the root,
  \<^verbatim>\<open>Array.prototype\<close> for an array), \<^verbatim>\<open>[PREFIX]\<close>, and \<^verbatim>\<open>[CYCLES]\<close>, the objects in the
  \<^verbatim>\<open>WeakSet\<close> of the write in progress, if there is one. Properties are string-keyed:
  the traps hand a symbol to the target itself and never to the table.
\<close>

datatype proto = NullProto | ArrayPrototype

record inner =
  PROTOTYPE :: proto
  PREFIX :: path
  CYCLES :: "nat set option"

text \<open>
  What a read gives: a stored scalar, a proxy on a deeper prefix or, for the length of an
  array, an integer.
\<close>

datatype propvalue = Stored jsvalue | Proxy proto path | Integer nat

record 'v descriptor =
  enumerable :: "bool option"
  configurable :: "bool option"
  writable :: "bool option"
  val :: 'v

text \<open>
  \<^verbatim>\<open>instanciate\<close> of \<^verbatim>\<open>proxy.ts\<close>; in \<^verbatim>\<open>table.ts\<close> the same three cases are the
  \<^verbatim>\<open>switch\<close> of \<^verbatim>\<open>getOwnPropertyDescriptor\<close>.
\<close>

definition instanciate :: "revision \<Rightarrow> engine \<Rightarrow> byte list \<Rightarrow> path \<Rightarrow> error + propvalue" where
  "instanciate rv E from prefix =
     (case datatype_of rv from of
        Inl e \<Rightarrow> Inl e
      | Inr IsRecord \<Rightarrow> Inr (Proxy NullProto prefix)
      | Inr IsArray \<Rightarrow> Inr (Proxy ArrayPrototype prefix)
      | Inr IsScalar \<Rightarrow> (case decodeScalar E from of Inl e \<Rightarrow> Inl e | Inr v \<Rightarrow> Inr (Stored v)))"

text \<open>\<^verbatim>\<open>(decoded.at(-1) as number) + 1\<close>, also where the last segment is no number.\<close>

definition plus_one :: "path \<Rightarrow> propvalue" where
  "plus_one decoded =
     (if decoded = [] then Stored (Number 0x7ff8000000000000)
      else case last decoded of
             Num n \<Rightarrow> Integer (n + 1)
           | Str s \<Rightarrow> Stored (String (s @ ascii ''1'')))"

definition getOwnPropertyDescriptor ::
  "revision \<Rightarrow> engine \<Rightarrow> inner \<Rightarrow> jsstring \<Rightarrow> database \<Rightarrow> error + propvalue descriptor option" where
  "getOwnPropertyDescriptor rv E target prop db =
     (if PROTOTYPE target = ArrayPrototype \<and> prop = ascii ''length'' then
        (case encodePath (PREFIX target @ [Num 0]) of
           Inl e \<Rightarrow> Inl e
         | Inr lower \<Rightarrow>
        (case encodePath (PREFIX target @ [Num 0xffffffff]) of
           Inl e \<Rightarrow> Inl e
         | Inr upper \<Rightarrow>
        (case length_get db lower upper of
           None \<Rightarrow>
             Inr (Some \<lparr>enumerable = Some False, configurable = Some True,
                        writable = Some True, val = Integer 0\<rparr>)
         | Some p \<Rightarrow>
             (case decodePath p of
                Inl e \<Rightarrow> Inl e
              | Inr decoded \<Rightarrow>
                  Inr (Some \<lparr>enumerable = Some False, configurable = Some False,
                             writable = Some True, val = plus_one decoded\<rparr>)))))
      else
        (let prefix = PREFIX target @ [key prop]
         in case encodePath prefix of
              Inl e \<Rightarrow> Inl e
            | Inr encoded \<Rightarrow>
                (case selectOne db encoded of
                   None \<Rightarrow> Inr None
                 | Some v \<Rightarrow>
                     (case instanciate rv E v prefix of
                        Inl e \<Rightarrow> Inl e
                      | Inr pv \<Rightarrow>
                          Inr (Some \<lparr>enumerable = Some True, configurable = Some True,
                                     writable = Some True, val = pv\<rparr>)))))"

text \<open>
  \<^verbatim>\<open>get\<close> and \<^verbatim>\<open>has\<close> fall back to the prototype chain where the table has nothing.
  What \<^verbatim>\<open>Reflect.get\<close> finds on \<^verbatim>\<open>Array.prototype\<close> is a method or an accessor result,
  none of them a value of the table.
\<close>

definition get :: "revision \<Rightarrow> engine \<Rightarrow> inner \<Rightarrow> jsstring \<Rightarrow> database \<Rightarrow> error + propvalue" where
  "get rv E target prop db =
     (case getOwnPropertyDescriptor rv E target prop db of
        Inl e \<Rightarrow> Inl e
      | Inr (Some d) \<Rightarrow> Inr (val d)
      | Inr None \<Rightarrow>
          if PROTOTYPE target = NullProto then Inr (Stored Undefined)
          else Inr (Stored (if Array_prototype_has prop then Other else Undefined)))"

definition has :: "revision \<Rightarrow> engine \<Rightarrow> inner \<Rightarrow> jsstring \<Rightarrow> database \<Rightarrow> error + bool" where
  "has rv E target prop db =
     (case getOwnPropertyDescriptor rv E target prop db of
        Inl e \<Rightarrow> Inl e
      | Inr (Some d) \<Rightarrow> Inr True
      | Inr None \<Rightarrow>
          if PROTOTYPE target = NullProto then Inr False
          else Inr (Array_prototype_has prop))"

definition deleteProperty ::
  "revision \<Rightarrow> inner \<Rightarrow> jsstring \<Rightarrow> database \<Rightarrow> (error + bool) \<times> database" where
  "deleteProperty rv target prop db =
     (if PROTOTYPE target = ArrayPrototype \<and> prop = ascii ''length'' then (Inr False, db)
      else case encodePath (PREFIX target @ [key prop]) of
             Inl e \<Rightarrow> (Inl e, db)
           | Inr encoded \<Rightarrow>
               (case delete_run db encoded (increment rv encoded) of
                  (db', changes) \<Rightarrow> (Inr (changes > 0), db')))"

subsection \<open>Writes\<close>

text \<open>
  The source values of a write: arrays and plain records live in a heap, so that one
  object can be reached twice. \<open>entries\<close> is what \<^verbatim>\<open>Object.entries\<close> gives, in its order.
\<close>

record obj =
  kind :: ComplexType
  entries :: "(jsstring \<times> jsvalue) list"

type_synonym heap = "nat \<Rightarrow> obj"

fun isArray :: "heap \<Rightarrow> jsvalue \<Rightarrow> bool" where
  "isArray h (Ref a) = (kind (h a) = ArrayType)"
| "isArray h _ = False"

fun isRecord :: "heap \<Rightarrow> jsvalue \<Rightarrow> bool" where
  "isRecord h (Ref a) = (kind (h a) = RecordType)"
| "isRecord h _ = False"

definition invalid_descriptor :: "'v descriptor \<Rightarrow> bool" where
  "invalid_descriptor desc =
     (enumerable desc = Some False \<or> configurable desc = Some False \<or> writable desc = Some False)"

definition invalid_length_descriptor :: "'v descriptor \<Rightarrow> bool" where
  "invalid_length_descriptor desc =
     (enumerable desc = Some True \<or> configurable desc = Some True \<or> writable desc = Some False)"

text \<open>The branch of \<^verbatim>\<open>defineProperty\<close> for the length of an array.\<close>

definition write_length :: "engine \<Rightarrow> inner \<Rightarrow> jsvalue descriptor \<Rightarrow> database \<Rightarrow> error + database" where
  "write_length E target desc db =
     (case ToNumber E (val desc) of
        Inl e \<Rightarrow> Inl e
      | Inr x \<Rightarrow>
     (case index_of x of
        None \<Rightarrow> Inl InvalidArrayLength
      | Some len \<Rightarrow>
          if invalid_length_descriptor desc then Inl InvalidLengthDescriptor
          else (case encodePath (PREFIX target @ [Num len]) of
                  Inl e \<Rightarrow> Inl e
                | Inr lower \<Rightarrow>
               (case encodePath (PREFIX target @ [Num 0xffffffff]) of
                  Inl e \<Rightarrow> Inl e
                | Inr upper \<Rightarrow> Inr (fst (delete_run db lower upper))))))"

text \<open>The branch for a value that is neither an array nor a plain record.\<close>

definition write_scalar :: "jsvalue descriptor \<Rightarrow> byte list \<Rightarrow> database \<Rightarrow> error + database" where
  "write_scalar desc encoded db =
     (if invalid_descriptor desc then Inl InvalidDescriptor
      else case encodeScalar (val desc) of
             Inl e \<Rightarrow> Inl e
           | Inr bytes \<Rightarrow> insert_run db encoded bytes)"

text \<open>The descriptor that the \<^verbatim>\<open>set\<close> trap hands to \<^verbatim>\<open>defineProperty\<close>.\<close>

definition set_descriptor :: "inner \<Rightarrow> jsstring \<Rightarrow> jsvalue \<Rightarrow> jsvalue descriptor" where
  "set_descriptor target prop v =
     (if PROTOTYPE target = ArrayPrototype \<and> prop = ascii ''length'' then
        \<lparr>enumerable = Some False, configurable = Some False, writable = Some True, val = v\<rparr>
      else
        \<lparr>enumerable = Some True, configurable = Some True, writable = Some True, val = v\<rparr>)"

text \<open>
  The loop \<^verbatim>\<open>for (const [k, v] of Object.entries(value)) this.set!(t, k, v, t)\<close>. All the
  calls share the one \<^verbatim>\<open>WeakSet\<close> that \<open>t\<close> refers to, so its contents pass from one call
  to the next; the first error ends the loop.
\<close>

type_synonym 'a outcome = "(error + 'a) \<times> nat set option \<times> database"

fun for_entries ::
  "(nat set option \<Rightarrow> jsstring \<Rightarrow> jsvalue \<Rightarrow> database \<Rightarrow> bool outcome) \<Rightarrow>
   nat set option \<Rightarrow> (jsstring \<times> jsvalue) list \<Rightarrow> database \<Rightarrow> bool outcome" where
  "for_entries step c [] db = (Inr True, c, db)"
| "for_entries step c ((k, v) # es) db =
     (case step c k v db of
        (Inl e, c', db') \<Rightarrow> (Inl e, c', db')
      | (Inr _, c', db') \<Rightarrow> for_entries step c' es db')"

text \<open>
  \<^verbatim>\<open>defineProperty\<close>, in three layers that follow the source: the branch for an array or
  a plain record, the statements of the \<^verbatim>\<open>try\<close> block, and the body of the trap with its
  \<^verbatim>\<open>catch\<close> and \<^verbatim>\<open>finally\<close>. \<open>self\<close> is the trap itself, which the loop re-enters
  through \<^verbatim>\<open>this.set\<close>. An outcome holds what the trap returns or throws, the contents
  of the \<^verbatim>\<open>WeakSet\<close> that \<^verbatim>\<open>target[CYCLES]\<close> refers to afterwards, and the table.
\<close>

text \<open>
  The cycle guard: \<^verbatim>\<open>cycles.has(value)\<close> where there is a \<^verbatim>\<open>WeakSet\<close>, and the set after
  \<^verbatim>\<open>new WeakSet([value])\<close> or \<^verbatim>\<open>cycles.add(value)\<close>.
\<close>

definition cycles_has :: "nat set option \<Rightarrow> nat \<Rightarrow> bool" where
  "cycles_has cycles a = (case cycles of None \<Rightarrow> False | Some c \<Rightarrow> a \<in> c)"

definition cycles_add :: "nat set option \<Rightarrow> nat \<Rightarrow> nat set" where
  "cycles_add cycles a = (case cycles of None \<Rightarrow> {a} | Some c \<Rightarrow> insert a c)"

definition write_composite ::
  "(inner \<Rightarrow> jsstring \<Rightarrow> jsvalue descriptor \<Rightarrow> database \<Rightarrow> bool outcome) \<Rightarrow>
   revision \<Rightarrow> heap \<Rightarrow> inner \<Rightarrow> jsvalue descriptor \<Rightarrow> path \<Rightarrow> byte list \<Rightarrow> nat \<Rightarrow> database
   \<Rightarrow> bool outcome" where
  "write_composite self rv h target desc prefix encoded a db1 =
     (let cycles = CYCLES target
      in if cycles_has cycles a then (Inl Cyclic, cycles, db1)
         else
           (let c1 = Some (cycles_add cycles a);
                array = isArray h (val desc)
            in if invalid_descriptor desc then (Inl InvalidDescriptor, c1, db1)
               else
                 (case insert_run db1 encoded
                         (encodeComplex rv (if array then ArrayType else RecordType)) of
                    Inl e \<Rightarrow> (Inl e, c1, db1)
                  | Inr db2 \<Rightarrow>
                      (let t = target\<lparr>PROTOTYPE := (if array then ArrayPrototype else NullProto),
                                       PREFIX := prefix\<rparr>
                       in for_entries
                            (\<lambda>c k v. self (t\<lparr>CYCLES := c\<rparr>) k (set_descriptor t k v))
                            c1 (entries (h a)) db2))))"

definition try_block ::
  "(inner \<Rightarrow> jsstring \<Rightarrow> jsvalue descriptor \<Rightarrow> database \<Rightarrow> bool outcome) \<Rightarrow>
   revision \<Rightarrow> engine \<Rightarrow> heap \<Rightarrow> inner \<Rightarrow> jsstring \<Rightarrow> jsvalue descriptor \<Rightarrow> path \<Rightarrow> byte list
   \<Rightarrow> database \<Rightarrow> bool outcome" where
  "try_block self rv E h target prop desc prefix encoded db =
     (let cycles = CYCLES target
      in case (if cycles = None then
                 (case exec BEGIN db of
                    Inl e \<Rightarrow> Inl e
                  | Inr db0 \<Rightarrow> Inr (fst (delete_run db0 encoded (increment rv encoded))))
               else Inr db) of
           Inl e \<Rightarrow> (Inl e, cycles, db)
         | Inr db1 \<Rightarrow>
             if PROTOTYPE target = ArrayPrototype \<and> prop = ascii ''length'' then
               (case write_length E target desc db1 of
                  Inl e \<Rightarrow> (Inl e, cycles, db1)
                | Inr db2 \<Rightarrow> (Inr True, cycles, db2))
             else if \<not> isArray h (val desc) \<and> \<not> isRecord h (val desc) then
               (case write_scalar desc encoded db1 of
                  Inl e \<Rightarrow> (Inl e, cycles, db1)
                | Inr db2 \<Rightarrow> (Inr True, cycles, db2))
             else
               (case val desc of
                  Ref a \<Rightarrow> write_composite self rv h target desc prefix encoded a db1
                | _ \<Rightarrow> (Inl UnsupportedType, cycles, db1)))"

definition defineProperty_body ::
  "(inner \<Rightarrow> jsstring \<Rightarrow> jsvalue descriptor \<Rightarrow> database \<Rightarrow> bool outcome) \<Rightarrow>
   revision \<Rightarrow> engine \<Rightarrow> heap \<Rightarrow> inner \<Rightarrow> jsstring \<Rightarrow> jsvalue descriptor \<Rightarrow> database
   \<Rightarrow> bool outcome" where
  "defineProperty_body self rv E h target prop desc db =
     (if val desc = Undefined then
        (case deleteProperty rv target prop db of
           (Inl e, db') \<Rightarrow> (Inl e, CYCLES target, db')
         | (Inr _, db') \<Rightarrow> (Inr True, CYCLES target, db'))
      else
        (let prefix = PREFIX target @ [key prop]
         in case encodePath prefix of
              Inl e \<Rightarrow> (Inl e, CYCLES target, db)
            | Inr encoded \<Rightarrow>
                (case try_block self rv E h target prop desc prefix encoded db of
                   (Inl err, c', db') \<Rightarrow>
                     if CYCLES target = None then
                       (case exec ROLLBACK db' of
                          Inl e \<Rightarrow> (Inl e, None, db')
                        | Inr db'' \<Rightarrow> (Inl err, None, db''))
                     else (Inl err, c', db')
                 | (Inr _, c', db') \<Rightarrow>
                     if CYCLES target = None then
                       (case exec COMMIT db' of
                          Inl e \<Rightarrow> (Inl e, None, db')
                        | Inr db'' \<Rightarrow> (Inr True, None, db''))
                     else (Inr True, c', db'))))"

text \<open>
  The first argument bounds the depth of the recursion through \<^verbatim>\<open>set\<close>, as the call
  stack of the engine does: a call that finds no room throws.
\<close>

fun defineProperty ::
  "nat \<Rightarrow> revision \<Rightarrow> engine \<Rightarrow> heap \<Rightarrow> inner \<Rightarrow> jsstring \<Rightarrow> jsvalue descriptor \<Rightarrow> database
   \<Rightarrow> bool outcome" where
  "defineProperty 0 rv E h target prop desc db = (Inl StackOverflow, CYCLES target, db)"
| "defineProperty (Suc depth) rv E h target prop desc db =
     defineProperty_body (defineProperty depth rv E h) rv E h target prop desc db"

text \<open>
  What a nested call is shown to keep: it is made while a write is in progress
  (\<^verbatim>\<open>target[CYCLES]\<close> is set), it leaves the open transaction as it is, and the
  \<^verbatim>\<open>WeakSet\<close> only grows.
\<close>

definition keeps_transaction ::
  "(inner \<Rightarrow> jsstring \<Rightarrow> jsvalue descriptor \<Rightarrow> database \<Rightarrow> bool outcome) \<Rightarrow> bool" where
  "keeps_transaction self =
     (\<forall>t p d db r c' db' c.
        CYCLES t = Some c \<longrightarrow> self t p d db = (r, c', db') \<longrightarrow>
        saved db' = saved db \<and> (\<exists>cs. c' = Some cs \<and> c \<subseteq> cs))"

text \<open>The \<^verbatim>\<open>set\<close> trap.\<close>

definition set_trap ::
  "nat \<Rightarrow> revision \<Rightarrow> engine \<Rightarrow> heap \<Rightarrow> inner \<Rightarrow> jsstring \<Rightarrow> jsvalue \<Rightarrow> database \<Rightarrow> bool outcome" where
  "set_trap depth rv E h target prop v db =
     defineProperty depth rv E h target prop (set_descriptor target prop v) db"

subsection \<open>Positions in a source value\<close>

text \<open>
  A position in a source value is the list of the indices, in the order of
  \<^verbatim>\<open>Object.entries\<close>, of the entries that lead to it from the value; \<open>value_at\<close> is what
  is found there, if the position exists.
\<close>

fun value_at :: "heap \<Rightarrow> jsvalue \<Rightarrow> nat list \<Rightarrow> jsvalue option" where
  "value_at h v [] = Some v"
| "value_at h v (i # p) =
     (case v of
        Ref a \<Rightarrow>
          if i < length (entries (h a)) then value_at h (snd (entries (h a) ! i)) p else None
      | _ \<Rightarrow> None)"

text \<open>
  \<^verbatim>\<open>Object.entries\<close> lists the enumerable own properties of an object. For an array these
  are its elements: the \<^verbatim>\<open>length\<close> of an array is not enumerable, so no entry of an array has
  that key.
\<close>

definition array_entries_ok :: "heap \<Rightarrow> bool" where
  "array_entries_ok h =
     (\<forall>a. kind (h a) = ArrayType \<longrightarrow> ascii ''length'' \<notin> fst ` set (entries (h a)))"

text \<open>
  The source value \<open>r\<close> as far as the loops of \<^verbatim>\<open>defineProperty\<close> get before they reach the
  position \<open>q\<close>: every object on the way to \<open>q\<close> keeps its entries up to the one that leads
  on, and the entry at \<open>q\<close> itself holds \<^verbatim>\<open>null\<close>.
\<close>

fun cut_at :: "heap \<Rightarrow> nat \<Rightarrow> nat list \<Rightarrow> heap" where
  "cut_at h r [] = h"
| "cut_at h r (j # q) =
     fun_upd (case snd (entries (h r) ! j) of Ref b \<Rightarrow> cut_at h b q | _ \<Rightarrow> h) r
       ((h r)\<lparr>entries := take j (entries (h r))
                  @ [(fst (entries (h r) ! j), if q = [] then Null else snd (entries (h r) ! j))]\<rparr>)"

text \<open>
  What the proofs establish of a nested call, in the manner of \<open>keeps_transaction\<close>: the
  rows at the paths above its own stay as they are; when it returns, every composite of
  its value has been entered once and is in the \<^verbatim>\<open>WeakSet\<close>; a call that returns gives
  the same on every heap that has the entries of the objects it entered; and a call on
  the graph cut before a position that holds an object already entered throws
  \<^verbatim>\<open>ReferenceError("Cyclic object")\<close> on the whole graph.
\<close>

definition keeps_row ::
  "byte list \<Rightarrow> (inner \<Rightarrow> jsstring \<Rightarrow> jsvalue descriptor \<Rightarrow> database \<Rightarrow> bool outcome) \<Rightarrow> bool" where
  "keeps_row e self =
     (\<forall>t p d db r c' db' c x.
        CYCLES t = Some c \<longrightarrow> path_bytes (PREFIX t) = e @ x \<longrightarrow> self t p d db = (r, c', db') \<longrightarrow>
        selectOne db' e = selectOne db e)"

definition visits_once ::
  "heap \<Rightarrow> (inner \<Rightarrow> jsstring \<Rightarrow> jsvalue descriptor \<Rightarrow> database \<Rightarrow> bool outcome) \<Rightarrow> bool" where
  "visits_once h self =
     (\<forall>t k d db x c' db' c.
        CYCLES t = Some c \<longrightarrow> \<not> (PROTOTYPE t = ArrayPrototype \<and> k = ascii ''length'') \<longrightarrow>
        self t k d db = (Inr x, c', db') \<longrightarrow>
        (\<exists>cs. c' = Some cs \<and> c \<subseteq> cs
           \<and> (\<forall>p a. value_at h (val d) p = Some (Ref a) \<longrightarrow>
                 a \<in> cs \<and> a \<notin> c \<and> (\<forall>q. value_at h (val d) q = Some (Ref a) \<longrightarrow> q = p))))"

definition follows ::
  "heap \<Rightarrow> heap \<Rightarrow> (inner \<Rightarrow> jsstring \<Rightarrow> jsvalue descriptor \<Rightarrow> database \<Rightarrow> bool outcome) \<Rightarrow>
   (inner \<Rightarrow> jsstring \<Rightarrow> jsvalue descriptor \<Rightarrow> database \<Rightarrow> bool outcome) \<Rightarrow> bool" where
  "follows h1 h2 self1 self2 =
     (\<forall>t k d db x cs db' c.
        CYCLES t = Some c \<longrightarrow> self1 t k d db = (Inr x, Some cs, db') \<longrightarrow>
        (\<forall>u\<in>cs - c. entries (h1 u) = entries (h2 u)) \<longrightarrow>
        self2 t k d db = (Inr x, Some cs, db'))"

definition second_visit_throws :: "revision \<Rightarrow> engine \<Rightarrow> heap \<Rightarrow> nat \<Rightarrow> nat \<Rightarrow> bool" where
  "second_visit_throws rv E h a n =
     (\<forall>t c k d r q db x cs db'.
        CYCLES t = Some c \<longrightarrow> val d = Ref r \<longrightarrow>
        \<not> (PROTOTYPE t = ArrayPrototype \<and> k = ascii ''length'') \<longrightarrow>
        q \<noteq> [] \<longrightarrow> value_at h (Ref r) q = Some (Ref a) \<longrightarrow>
        defineProperty n rv E (cut_at h r q) t k d db = (Inr x, Some cs, db') \<longrightarrow> a \<in> cs \<longrightarrow>
        (\<exists>cs2 db2. defineProperty n rv E h t k d db = (Inl Cyclic, Some cs2, db2))
        \<and> (\<forall>u\<in>c. entries (cut_at h r q u) = entries (h u)))"

text \<open>
  Two source values for the examples: \<^verbatim>\<open>{x: {p: a}, y: {q: a}}\<close> with \<^verbatim>\<open>a = {n: null}\<close>, and
  \<^verbatim>\<open>{x: a, y: a}\<close> where the one key of \<^verbatim>\<open>a\<close> is the single code unit \<open>0xFFFF\<close>.
\<close>

definition shared_below :: heap where
  "shared_below u =
     (if u = 0 then \<lparr>kind = RecordType, entries = [(ascii ''x'', Ref 1), (ascii ''y'', Ref 2)]\<rparr>
      else if u = 1 then \<lparr>kind = RecordType, entries = [(ascii ''p'', Ref 3)]\<rparr>
      else if u = 2 then \<lparr>kind = RecordType, entries = [(ascii ''q'', Ref 3)]\<rparr>
      else \<lparr>kind = RecordType, entries = [(ascii ''n'', Null)]\<rparr>)"

definition shared_invalid :: heap where
  "shared_invalid u =
     (if u = 0 then \<lparr>kind = RecordType, entries = [(ascii ''x'', Ref 1), (ascii ''y'', Ref 1)]\<rparr>
      else \<lparr>kind = RecordType, entries = [([0xffff], Null)]\<rparr>)"

subsection \<open>Enumeration\<close>

text \<open>
  The iterator chain of \<^verbatim>\<open>Database.entries\<close> on a proxy, run to its end: every row of the
  range is decoded, the direct children are kept and their values instantiated.
\<close>

fun entries_of_rows ::
  "revision \<Rightarrow> engine \<Rightarrow> nat \<Rightarrow> row list \<Rightarrow> error + (segment \<times> propvalue) list" where
  "entries_of_rows rv E n [] = Inr []"
| "entries_of_rows rv E n ((p, v) # rs) =
     (case decodePath p of
        Inl e \<Rightarrow> Inl e
      | Inr decoded \<Rightarrow>
          if length decoded = n + 1 then
            (case instanciate rv E v decoded of
               Inl e \<Rightarrow> Inl e
             | Inr pv \<Rightarrow>
                 (case entries_of_rows rv E n rs of
                    Inl e \<Rightarrow> Inl e
                  | Inr xs \<Rightarrow> Inr ((last decoded, pv) # xs)))
          else entries_of_rows rv E n rs)"

definition Database_entries ::
  "engine \<Rightarrow> inner \<Rightarrow> database \<Rightarrow> error + (segment \<times> propvalue) list" where
  "Database_entries E target db =
     (case encodePath (PREFIX target) of
        Inl e \<Rightarrow> Inl e
      | Inr encoded \<Rightarrow>
          entries_of_rows ProxyTs E (length (PREFIX target))
            (selectMany db encoded (increment ProxyTs encoded)))"

text \<open>The chain of \<^verbatim>\<open>ownKeys\<close> in \<^verbatim>\<open>table.ts\<close>, which reads the paths only.\<close>

fun keys_of_rows :: "nat \<Rightarrow> row list \<Rightarrow> error + jsstring list" where
  "keys_of_rows n [] = Inr []"
| "keys_of_rows n ((p, v) # rs) =
     (case decodePath p of
        Inl e \<Rightarrow> Inl e
      | Inr decoded \<Rightarrow>
          (case keys_of_rows n rs of
             Inl e \<Rightarrow> Inl e
           | Inr ks \<Rightarrow>
               Inr (if length decoded = n + 1 then String_of_segment (last decoded) # ks else ks)))"

fun ownKeys :: "revision \<Rightarrow> engine \<Rightarrow> inner \<Rightarrow> database \<Rightarrow> error + jsstring list" where
  "ownKeys TableTs E target db =
     (case encodePath (PREFIX target) of
        Inl e \<Rightarrow> Inl e
      | Inr encoded \<Rightarrow>
          keys_of_rows (length (PREFIX target))
            (selectMany db encoded (increment TableTs encoded)))"
| "ownKeys ProxyTs E target db =
     (case Database_entries E target db of
        Inl e \<Rightarrow> Inl e
      | Inr es \<Rightarrow>
          Inr ((if PROTOTYPE target = ArrayPrototype then [ascii ''length''] else [])
               @ map (\<lambda>e. String_of_segment (fst e)) es))"

section \<open>Evaluation of the standard-library functions\<close>

lemmas number_defs = StringToNumber_def trim_def ascii_def isWhiteSpace_def radix_prefix_def
  StrUnsignedDecimalLiteral_def SignedInteger_def parse_digits_def digit_value_def round64_def
  exponent2_def bitlen.simps round_half_even_def Let_def

lemma be_bytes_2: "be_bytes 2 n = [of_nat (n div 256), of_nat n]"
proof -
  have "be_bytes (Suc (Suc 0)) n = [of_nat (n div 256), of_nat n]"
    by simp
  then show ?thesis
    by (simp only: numeral_2_eq_2)
qed

lemma be_bytes_4:
  "be_bytes 4 n = [of_nat (n div 256 div 256 div 256), of_nat (n div 256 div 256),
                   of_nat (n div 256), of_nat n]"
proof -
  have "be_bytes (Suc (Suc (Suc (Suc 0)))) n =
          [of_nat (n div 256 div 256 div 256), of_nat (n div 256 div 256),
           of_nat (n div 256), of_nat n]"
    by simp
  moreover have "(4::nat) = Suc (Suc (Suc (Suc 0)))"
    by simp
  ultimately show ?thesis
    by (simp only:)
qed

lemmas byte_defs = setUint16_def setUint32_def getUint16_def getUint32_def be_bytes_2 be_bytes_4
  be_value_def

lemmas tag_defs = OBJECT_TAGS_RECORD_def OBJECT_TAGS_ARRAY_def COMPLEX_TAGS_RECORD_def
  COMPLEX_TAGS_ARRAY_def

section \<open>Properties of the path codec\<close>

subsection \<open>Big-endian bytes\<close>

lemma length_be_bytes [simp]: "length (be_bytes k n) = k"
  by (induction k arbitrary: n) auto

lemma be_value_snoc: "be_value (bs @ [b]) = be_value bs * 256 + unat b"
  by (simp add: be_value_def)

lemma be_value_Nil [simp]: "be_value [] = 0"
  by (simp add: be_value_def)

lemma unat_of_nat_byte: "unat (of_nat n :: byte) = n mod 256"
  by (simp add: unat_of_nat)

lemma be_value_be_bytes: "be_value (be_bytes k n) = n mod 256 ^ k"
proof (induction k arbitrary: n)
  case 0
  then show ?case by simp
next
  case (Suc k)
  have "be_value (be_bytes (Suc k) n) = (n div 256 mod 256 ^ k) * 256 + n mod 256"
    by (simp add: be_value_snoc Suc unat_of_nat_byte)
  also have "\<dots> = n mod 256 ^ Suc k"
    by (simp add: mod_mult2_eq)
  finally show ?case .
qed

lemma be_value_bound: "be_value bs < 256 ^ length bs"
proof (induction bs rule: rev_induct)
  case Nil
  then show ?case by simp
next
  case (snoc b bs)
  have "unat b < 256"
    using unsigned_less [of b] by simp
  with snoc show ?case
    by (simp add: be_value_snoc)
qed

lemma be_bytes_be_value: "be_bytes (length bs) (be_value bs) = bs"
proof (induction bs rule: rev_induct)
  case Nil
  then show ?case by simp
next
  case (snoc b bs)
  have b: "unat b < 256"
    using unsigned_less [of b] by simp
  then have "(be_value bs * 256 + unat b) div 256 = be_value bs"
    by simp
  moreover have "(of_nat (be_value bs * 256 + unat b) :: byte) = b"
  proof -
    have "unat (of_nat (be_value bs * 256 + unat b) :: byte) = (be_value bs * 256 + unat b) mod 256"
      by (simp only: unat_of_nat_byte)
    also have "\<dots> = unat b"
      using b by simp
    finally show ?thesis
      by (simp only: word_unat_eq_iff)
  qed
  ultimately show ?case
    using snoc by (simp add: be_value_snoc)
qed

lemma be_value_Cons: "be_value (b # bs) = unat b * 256 ^ length bs + be_value bs"
proof (induction bs rule: rev_induct)
  case Nil
  then show ?case by (simp add: be_value_def)
next
  case (snoc x xs)
  have "be_value (b # xs @ [x]) = be_value ((b # xs) @ [x])"
    by simp
  also have "\<dots> = be_value (b # xs) * 256 + unat x"
    by (rule be_value_snoc)
  finally show ?case
    using snoc by (simp add: be_value_snoc algebra_simps)
qed

subsection \<open>The order of blobs\<close>

lemma blob_less_irrefl [simp]: "\<not> blob_less a a"
  by (induction a) auto

lemma blob_less_asym: "blob_less a b \<Longrightarrow> \<not> blob_less b a"
  by (induction a b rule: blob_less.induct) auto

lemma blob_less_trans: "blob_less a b \<Longrightarrow> blob_less b c \<Longrightarrow> blob_less a c"
proof (induction a b arbitrary: c rule: blob_less.induct)
  case (2 y ys)
  then show ?case by (cases c) auto
next
  case (4 x xs y ys)
  then show ?case by (cases c) auto
qed auto

lemma blob_less_total: "blob_less a b \<or> a = b \<or> blob_less b a"
  by (induction a b rule: blob_less.induct) auto

lemma blob_less_append_same [simp]: "blob_less (e @ xs) (e @ ys) = blob_less xs ys"
  by (induction e) auto

lemma blob_less_append_right [simp]: "blob_less a (a @ x # xs)"
  by (induction a) auto

lemma blob_less_eq_length:
  "length a = length b \<Longrightarrow>
     blob_less (a @ xs) (b @ ys) = (blob_less a b \<or> (a = b \<and> blob_less xs ys))"
  by (induction a b rule: list_induct2) auto

lemma blob_less_be_value:
  "length a = length b \<Longrightarrow> blob_less a b = (be_value a < be_value b)"
proof (induction a b rule: list_induct2)
  case Nil
  then show ?case by simp
next
  case (Cons x xs y ys)
  have bx: "be_value xs < 256 ^ length xs" and by': "be_value ys < 256 ^ length xs"
    using be_value_bound [of xs] be_value_bound [of ys] Cons.hyps by simp_all
  have lt: "x < y \<longleftrightarrow> unat x < unat y" and eq: "x = y \<longleftrightarrow> unat x = unat y"
    by (simp_all add: word_less_nat_alt word_unat_eq_iff)
  show ?case
  proof (cases "unat x < unat y")
    case True
    then have "unat x + 1 \<le> unat y" by simp
    then have "(unat x + 1) * 256 ^ length xs \<le> unat y * 256 ^ length xs"
      by (rule mult_le_mono1)
    then have "unat x * 256 ^ length xs + be_value xs < unat y * 256 ^ length xs + be_value ys"
      using bx by (simp add: algebra_simps)
    with True show ?thesis
      using Cons.hyps by (simp add: be_value_Cons lt)
  next
    case False
    show ?thesis
    proof (cases "unat x = unat y")
      case True
      then show ?thesis
        using Cons by (simp add: be_value_Cons lt eq)
    next
      case neq: False
      with False have "unat y + 1 \<le> unat x" by simp
      then have "(unat y + 1) * 256 ^ length xs \<le> unat x * 256 ^ length xs"
        by (rule mult_le_mono1)
      then have "\<not> unat x * 256 ^ length xs + be_value xs < unat y * 256 ^ length xs + be_value ys"
        using by' by (simp add: algebra_simps)
      with False neq show ?thesis
        using Cons.hyps by (simp add: be_value_Cons lt eq)
    qed
  qed
qed


subsection \<open>Strings\<close>

lemma getUint16_setUint16: "setUint16 c = [hi, lo] \<Longrightarrow> getUint16 hi lo = c"
proof -
  assume a: "setUint16 c = [hi, lo]"
  have "be_value (setUint16 c) = unat c mod 256 ^ 2"
    unfolding setUint16_def by (rule be_value_be_bytes)
  moreover have "unat c < 256 ^ 2"
    using unsigned_less [of c] by simp
  ultimately have "be_value [hi, lo] = unat c"
    using a by simp
  then show ?thesis
    by (simp add: getUint16_def)
qed

lemma setUint16_shape: "\<exists>hi lo. setUint16 c = [hi, lo]"
  by (simp add: setUint16_def numeral_2_eq_2)

lemma be_value_setUint16: "be_value (setUint16 c) = unat c"
proof -
  have "be_value (setUint16 c) = unat c mod 256 ^ 2"
    unfolding setUint16_def by (rule be_value_be_bytes)
  moreover have "unat c < 256 ^ 2"
    using unsigned_less [of c] by simp
  ultimately show ?thesis by simp
qed

lemma length_setUint16 [simp]: "length (setUint16 c) = 2"
  by (simp add: setUint16_def)

lemma length_setUint32 [simp]: "length (setUint32 n) = 4"
  by (simp add: setUint32_def)

lemma blob_less_setUint16: "blob_less (setUint16 c) (setUint16 d) = (c < d)"
  by (simp add: blob_less_be_value be_value_setUint16 word_less_nat_alt)

lemma setUint16_inject: "setUint16 c = setUint16 d \<Longrightarrow> c = d"
  by (metis be_value_setUint16 word_unat_eq_iff)

lemma be_value_setUint32: "n < 2 ^ 32 \<Longrightarrow> be_value (setUint32 n) = n"
proof -
  assume "n < 2 ^ 32"
  moreover have "be_value (setUint32 n) = n mod 256 ^ 4"
    unfolding setUint32_def by (rule be_value_be_bytes)
  ultimately show ?thesis by simp
qed

lemma blob_less_setUint32:
  "a < 2 ^ 32 \<Longrightarrow> b < 2 ^ 32 \<Longrightarrow> blob_less (setUint32 a) (setUint32 b) = (a < b)"
  by (simp add: blob_less_be_value be_value_setUint32)

lemma setUint32_inject: "a < 2 ^ 32 \<Longrightarrow> b < 2 ^ 32 \<Longrightarrow> setUint32 a = setUint32 b \<Longrightarrow> a = b"
  by (metis be_value_setUint32)

subsection \<open>What \<open>encodePath\<close> returns\<close>

lemma encodeString_Inr:
  "encodeString s = Inr bs \<Longrightarrow> bs = concat (map setUint16 s) \<and> units_ok s"
  by (induction s arbitrary: bs) (auto split: if_splits sum.splits)

lemma encodeString_ok: "units_ok s \<Longrightarrow> encodeString s = Inr (concat (map setUint16 s))"
  by (induction s) (auto simp: not_le [symmetric])

lemma length_units [simp]: "length (concat (map setUint16 s)) = 2 * length s"
  by (induction s) auto

lemma length_segment_bytes:
  "length (segment_bytes s) = (case s of Num n \<Rightarrow> 5 | Str u \<Rightarrow> 2 * length u + 3)"
  by (cases s) auto

lemma path_bytes_Nil [simp]: "path_bytes [] = []"
  by (simp add: path_bytes_def)

lemma path_bytes_Cons [simp]: "path_bytes (s # p) = segment_bytes s @ path_bytes p"
  by (simp add: path_bytes_def)

lemma path_bytes_append [simp]: "path_bytes (p @ q) = path_bytes p @ path_bytes q"
  by (simp add: path_bytes_def)

lemma encodePath_loop_Inr:
  "encodePath_loop view p = Inr b \<Longrightarrow> b = view @ path_bytes p"
proof (induction view p arbitrary: b rule: encodePath_loop.induct)
  case (1 view)
  then show ?case by simp
next
  case (2 view n rest)
  then show ?case by (auto split: if_splits)
next
  case (3 view s rest)
  then show ?case
    by (auto split: if_splits sum.splits dest!: encodeString_Inr)
qed

lemma encodePath_Inr: "encodePath p = Inr b \<Longrightarrow> b = path_bytes p"
  unfolding encodePath_def by (drule encodePath_loop_Inr) simp

lemma encodePath_loop_ok:
  "list_all valid_segment p \<Longrightarrow> length view + length (path_bytes p) \<le> 65535 \<Longrightarrow>
     encodePath_loop view p = Inr (view @ path_bytes p)"
proof (induction view p rule: encodePath_loop.induct)
  case (1 view)
  then show ?case by simp
next
  case (2 view n rest)
  then show ?case by simp
next
  case (3 view s rest)
  then show ?case by (simp add: encodeString_ok)
qed

lemma encodePath_ok:
  "list_all valid_segment p \<Longrightarrow> length (path_bytes p) \<le> 65535 \<Longrightarrow>
     encodePath p = Inr (path_bytes p)"
  unfolding encodePath_def using encodePath_loop_ok [of p "[]"] by simp

lemma encodePath_loop_units:
  "encodePath_loop view p = Inr b \<Longrightarrow> Str s \<in> set p \<Longrightarrow> units_ok s"
proof (induction view p arbitrary: b rule: encodePath_loop.induct)
  case (1 view)
  then show ?case by simp
next
  case (2 view n rest)
  then show ?case by (auto split: if_splits)
next
  case (3 view u rest)
  then show ?case
    by (auto split: if_splits sum.splits dest!: encodeString_Inr)
qed

lemma encodePath_loop_length:
  "encodePath_loop view p = Inr b \<Longrightarrow> length view \<le> 65535 \<Longrightarrow> length b \<le> 65535"
proof (induction view p arbitrary: b rule: encodePath_loop.induct)
  case (1 view)
  then show ?case by simp
next
  case (2 view n rest)
  then show ?case by (auto split: if_splits)
next
  case (3 view u rest)
  then show ?case
    by (auto split: if_splits sum.splits dest!: encodeString_Inr)
qed

subsection \<open>The order of encoded paths\<close>

lemma units_bytes_less:
  "units_ok s \<Longrightarrow> units_less s t \<Longrightarrow>
     blob_less (concat (map setUint16 s) @ setUint16 0xfffe @ xs)
               (concat (map setUint16 t) @ setUint16 0xfffe @ ys)"
proof (induction s t rule: units_less.induct)
  case (1 t)
  then show ?case by simp
next
  case (2 x xs')
  then show ?case
    by (simp add: blob_less_eq_length blob_less_setUint16)
next
  case (3 x xs' y ys')
  then show ?case
    by (auto simp add: blob_less_eq_length blob_less_setUint16)
qed

lemma segment_bytes_less:
  "valid_segment s \<Longrightarrow> valid_segment t \<Longrightarrow> segment_less s t \<Longrightarrow>
     blob_less (segment_bytes s @ xs) (segment_bytes t @ ys)"
proof (induction s t rule: segment_less.induct)
  case (1 a b)
  then show ?case
    by (simp add: blob_less_eq_length blob_less_setUint32)
next
  case (4 s t)
  then show ?case
    using units_bytes_less [of s t xs ys] by simp
qed simp_all

lemma segment_bytes_not_Nil [simp]: "segment_bytes s \<noteq> []"
  by (cases s) auto

lemma path_bytes_less:
  "list_all valid_segment p \<Longrightarrow> list_all valid_segment q \<Longrightarrow> path_less p q \<Longrightarrow>
     blob_less (path_bytes p) (path_bytes q)"
proof (induction p q rule: path_less.induct)
  case 1
  then show ?case by simp
next
  case (2 t q)
  then show ?case by (cases "segment_bytes t") auto
next
  case (3 s p)
  then show ?case by simp
next
  case (4 s p t q)
  then show ?case
    by (auto simp add: segment_bytes_less)
qed

lemma units_less_total: "units_less s t \<or> s = t \<or> units_less t s"
  by (induction s t rule: units_less.induct) (auto, (case_tac t; auto)+)

lemma segment_less_total: "segment_less s t \<or> s = t \<or> segment_less t s"
  using units_less_total by (cases s; cases t) auto

lemma path_less_total: "path_less p q \<or> p = q \<or> path_less q p"
proof (induction p q rule: path_less.induct)
  case (4 s p t q)
  then show ?case
    using segment_less_total [of s t] by auto
qed auto

lemma blob_less_path_bytes:
  assumes "list_all valid_segment p" and "list_all valid_segment q"
  shows "blob_less (path_bytes p) (path_bytes q) = path_less p q"
proof
  assume l: "blob_less (path_bytes p) (path_bytes q)"
  show "path_less p q"
  proof (rule ccontr)
    assume "\<not> path_less p q"
    then consider "p = q" | "path_less q p"
      using path_less_total [of p q] by auto
    then show False
    proof cases
      case 1
      with l show False by simp
    next
      case 2
      then have "blob_less (path_bytes q) (path_bytes p)"
        using assms by (simp add: path_bytes_less)
      with l show False
        using blob_less_asym by blast
    qed
  qed
next
  assume "path_less p q"
  then show "blob_less (path_bytes p) (path_bytes q)"
    using assms by (simp add: path_bytes_less)
qed

lemma path_bytes_inject:
  assumes "list_all valid_segment p" and "list_all valid_segment q"
    and "path_bytes p = path_bytes q"
  shows "p = q"
proof (rule ccontr)
  assume "p \<noteq> q"
  then consider "path_less p q" | "path_less q p"
    using path_less_total [of p q] by auto
  then show False
    using assms path_bytes_less [of p q] path_bytes_less [of q p] by cases auto
qed

subsection \<open>Decoding an encoded path\<close>

lemma decodeString_units:
  "units_ok s \<Longrightarrow>
     decodeString (concat (map setUint16 s) @ setUint16 0xfffe @ rest) = Inr s"
proof (induction s)
  case Nil
  obtain hi lo where hl: "setUint16 0xfffe = [hi, lo]"
    using setUint16_shape by blast
  then show ?case
    by (simp add: getUint16_setUint16 [OF hl])
next
  case (Cons c s)
  obtain hi lo where hl: "setUint16 c = [hi, lo]"
    using setUint16_shape by blast
  with Cons show ?case
    by (simp add: getUint16_setUint16 [OF hl] not_le [symmetric])
qed

lemma decodeString_all_units:
  "units_ok s \<Longrightarrow> decodeString (concat (map setUint16 s)) = Inr s"
proof (induction s)
  case Nil
  then show ?case by simp
next
  case (Cons c s)
  obtain hi lo where hl: "setUint16 c = [hi, lo]"
    using setUint16_shape by blast
  with Cons show ?case
    by (simp add: getUint16_setUint16 [OF hl] not_le [symmetric])
qed

lemma decodePath_path_bytes:
  "list_all valid_segment p \<Longrightarrow> decodePath (path_bytes p) = Inr p"
proof (induction p)
  case Nil
  then show ?case by simp
next
  case (Cons s p)
  show ?case
  proof (cases s)
    case (Num n)
    with Cons show ?thesis
      by (simp add: getUint32_def be_value_setUint32)
  next
    case (Str u)
    with Cons show ?thesis
      by (simp add: decodeString_units)
  qed
qed

section \<open>The order of paths\<close>

text \<open>
  C2, amended: for two paths that \<^verbatim>\<open>encodePath\<close> encodes, the encoding of the first is
  below the encoding of the second, as SQLite compares BLOBs, exactly when the first path
  comes before the second in the order where numbers come before strings, numbers
  compare by value, and strings compare code unit by code unit with a string that has
  ended coming after every string that extends it.
\<close>

theorem C2_path_order:
  assumes "encodePath p = Inr a" and "encodePath q = Inr b"
    and "list_all valid_segment p" and "list_all valid_segment q"
  shows "blob_less a b = path_less p q"
proof -
  have "a = path_bytes p" and "b = path_bytes q"
    using assms(1,2) by (auto dest: encodePath_Inr)
  then show ?thesis
    using assms(3,4) by (simp add: blob_less_path_bytes)
qed

theorem C2_path_order_witness:
  "encodePath [Num 7, Str (ascii ''ab'')] = Inr [0, 0, 0, 0, 7, 1, 0, 0x61, 0, 0x62, 0xff, 0xfe]
   \<and> encodePath [Num 7, Str (ascii ''a'')] = Inr [0, 0, 0, 0, 7, 1, 0, 0x61, 0xff, 0xfe]
   \<and> list_all valid_segment [Num 7, Str (ascii ''ab'')]
   \<and> list_all valid_segment [Num 7, Str (ascii ''a'')]
   \<and> blob_less [0, 0, 0, 0, 7, 1, 0, 0x61, 0, 0x62, 0xff, 0xfe] [0, 0, 0, 0, 7, 1, 0, 0x61, 0xff, 0xfe]
       = path_less [Num 7, Str (ascii ''ab'')] [Num 7, Str (ascii ''a'')]
   \<and> path_less [Num 7, Str (ascii ''ab'')] [Num 7, Str (ascii ''a'')]"
proof -
  have e1: "encodePath [Num 7, Str (ascii ''ab'')]
              = Inr [0, 0, 0, 0, 7, 1, 0, 0x61, 0, 0x62, 0xff, 0xfe]"
    by (simp add: encodePath_def ascii_def byte_defs)
  have e2: "encodePath [Num 7, Str (ascii ''a'')] = Inr [0, 0, 0, 0, 7, 1, 0, 0x61, 0xff, 0xfe]"
    by (simp add: encodePath_def ascii_def byte_defs)
  have v1: "list_all valid_segment [Num 7, Str (ascii ''ab'')]"
    by (simp add: ascii_def)
  have v2: "list_all valid_segment [Num 7, Str (ascii ''a'')]"
    by (simp add: ascii_def)
  have "path_less [Num 7, Str (ascii ''ab'')] [Num 7, Str (ascii ''a'')]"
    by (simp add: ascii_def)
  with C2_path_order [OF e1 e2 v1 v2] e1 e2 v1 v2 show ?thesis
    by simp
qed

text \<open>
  C2, as stated, fails: under the order by code units alone the path \<^verbatim>\<open>["a"]\<close> comes
  before \<^verbatim>\<open>["ab"]\<close>, but its encoding is not below the encoding of \<^verbatim>\<open>["ab"]\<close>: after the
  common bytes the terminator \<open>0xFF\<close> meets the high byte \<open>0x00\<close> of \<^verbatim>\<open>"b"\<close>.
\<close>

theorem C2_counterexample:
  "encodePath [Str (ascii ''a'')] = Inr [1, 0, 0x61, 0xff, 0xfe]
   \<and> encodePath [Str (ascii ''ab'')] = Inr [1, 0, 0x61, 0, 0x62, 0xff, 0xfe]
   \<and> path_less_spec [Str (ascii ''a'')] [Str (ascii ''ab'')]
   \<and> \<not> blob_less [1, 0, 0x61, 0xff, 0xfe] [1, 0, 0x61, 0, 0x62, 0xff, 0xfe]"
  by (simp add: encodePath_def ascii_def byte_defs)

section \<open>Range bounds\<close>

text \<open>
  C6: \<^verbatim>\<open>increment\<close> of the empty buffer is the single byte \<open>0x01\<close> in
  \<^verbatim>\<open>src/src/encoding.ts\<close>, and the single byte \<open>0xFF\<close> in the later codec
  (\<^verbatim>\<open>src/unnamed/part_000\<close>).
\<close>

theorem C6_increment_empty:
  "increment TableTs [] = [0x01] \<and> increment ProxyTs [] = [0xff]"
  by (simp add: ZERO_INCREMENT_def)

text \<open>
  C6, as stated, fails on the later codec: there the upper bound of the root range is not
  \<open>0x01\<close>.
\<close>

theorem C6_counterexample:
  "increment ProxyTs [] \<noteq> [0x01]"
  by (simp add: ZERO_INCREMENT_def)

text \<open>
  C1 fails where the path ends in a number whose low byte is \<open>0xFF\<close>: the key \<^verbatim>\<open>"255"\<close>
  is the number segment 255, its encoded path ends in the byte \<open>0xFF\<close>, and
  \<^verbatim>\<open>increment\<close> wraps that byte to \<open>0x00\<close> without a carry. The result is below the
  path, the range \<open>[b, increment(b))\<close> is empty and does not even hold \<open>b\<close>, and
  \<^verbatim>\<open>delete table[255]\<close> removes nothing.
\<close>

theorem C1_increment_wraps:
  "key (ascii ''255'') = Num 255
   \<and> encodePath [Num 255] = Inr [0, 0, 0, 0, 0xff]
   \<and> increment rv [0, 0, 0, 0, 0xff] = [0, 0, 0, 0, 0]
   \<and> blob_less (increment rv [0, 0, 0, 0, 0xff]) [0, 0, 0, 0, 0xff]
   \<and> \<not> in_range [0, 0, 0, 0, 0xff] (increment rv [0, 0, 0, 0, 0xff]) [0, 0, 0, 0, 0xff]
   \<and> deleteProperty rv \<lparr>PROTOTYPE = NullProto, PREFIX = [], CYCLES = None\<rparr> (ascii ''255'')
         \<lparr>rows = [([0, 0, 0, 0, 0xff], [0])], saved = None\<rparr>
       = (Inr False, \<lparr>rows = [([0, 0, 0, 0, 0xff], [0])], saved = None\<rparr>)"
  by (cases rv)
     (simp_all add: key_def number_defs encodePath_def byte_defs in_range_def blob_le_def
        deleteProperty_def delete_run_def)

section \<open>Composite markers\<close>



section \<open>Round trip of scalars\<close>

text \<open>
  C3 fails for regular expressions: \<^verbatim>\<open>/a/i\<close> is stored as the text \<^verbatim>\<open>"/a/i"\<close>, and the
  decoder hands that text to \<^verbatim>\<open>new RegExp\<close> as the pattern. Whatever the engine makes of
  it, the result has no flags, so it is not the expression that was written.
\<close>

theorem C3_regexp_not_restored:
  "encodeScalar (RegExp (ascii ''a'') (ascii ''i'')) = Inr [7, 0, 0x2f, 0, 0x61, 0, 0x2f, 0, 0x69]
   \<and> decodeScalar E [7, 0, 0x2f, 0, 0x61, 0, 0x2f, 0, 0x69]
       = (case RegExp_source E (ascii ''/a/i'') of
            None \<Rightarrow> Inl SyntaxError
          | Some source \<Rightarrow> Inr (RegExp source []))
   \<and> decodeScalar E [7, 0, 0x2f, 0, 0x61, 0, 0x2f, 0, 0x69] \<noteq> Inr (RegExp (ascii ''a'') (ascii ''i''))"
  by (simp add: RegExp_toString_def ascii_def tagged_def byte_defs split: option.split)

section \<open>Keys and presence\<close>

lemma key_empty: "key [] = Num 0"
  by (simp add: key_def number_defs)

lemma key_zero: "key (ascii ''0'') = Num 0"
  by (simp add: key_def number_defs)

lemma key_1e3: "key (ascii ''1e3'') = Num 1000"
  by (simp add: key_def number_defs)

lemma key_0x10: "key (ascii ''0x10'') = Num 16"
  by (simp add: key_def number_defs)

lemma dec_digits_0: "dec_digits 0 = [0x30]"
  by (simp add: dec_digits.simps)

lemma dec_digits_1000: "dec_digits 1000 = ascii ''1000''"
  by (simp add: dec_digits.simps ascii_def)

lemma set_1e3_rows:
  "set_trap (Suc 0) rv E h \<lparr>PROTOTYPE = NullProto, PREFIX = [], CYCLES = None\<rparr> (ascii ''1e3'') Null
        \<lparr>rows = [], saved = None\<rparr>
   = (Inr True, None, \<lparr>rows = [([0, 0, 0, 3, 0xe8], [0])], saved = None\<rparr>)"
  by (simp add: set_trap_def set_descriptor_def defineProperty_body_def try_block_def key_1e3
      encodePath_def byte_defs delete_run_def write_scalar_def invalid_descriptor_def
      insert_run_def selectOne_def)

lemma ownKeys_after:
  "ownKeys rv E \<lparr>PROTOTYPE = NullProto, PREFIX = [], CYCLES = None\<rparr>
       \<lparr>rows = [([0, 0, 0, 3, 0xe8], [0])], saved = None\<rparr> = Inr [ascii ''1000'']"
  by (cases rv)
     (simp_all add: encodePath_def Database_entries_def selectMany_def in_range_def blob_le_def
        ZERO_INCREMENT_def byte_defs instanciate_def tag_defs dec_digits_1000)

lemma selectOne_iff: "(selectOne db p \<noteq> None) = (p \<in> fst ` set (rows db))"
  by (simp add: selectOne_def map_of_eq_None_iff)

lemma length_in_prototype: "Array_prototype_has (ascii ''length'')"
  by (simp add: Array_prototype_has_def Array_prototype_names_def)

text \<open>
  C8, amended: when \<^verbatim>\<open>has\<close> returns, it returns true exactly if a row is stored at the
  path of the key, or the handle is an array and the key is a property of
  \<^verbatim>\<open>Array.prototype\<close> or of \<^verbatim>\<open>Object.prototype\<close> (\<^verbatim>\<open>"length"\<close> is one of them). On a record
  handle and on the root, whose prototype is \<^verbatim>\<open>null\<close>, no key without a row is present.
\<close>

theorem C8_has:
  assumes "has rv E target prop db = Inr b"
    and "encodePath (PREFIX target @ [key prop]) = Inr encoded"
  shows "b = (selectOne db encoded \<noteq> None
              \<or> (PROTOTYPE target = ArrayPrototype \<and> Array_prototype_has prop))"
proof (cases "PROTOTYPE target = ArrayPrototype \<and> prop = ascii ''length''")
  case True
  with assms(1) have "b"
    by (auto simp add: has_def getOwnPropertyDescriptor_def
        split: sum.splits option.splits if_splits)
  with True show ?thesis
    by (simp add: length_in_prototype)
next
  case False
  with assms show ?thesis
    by (cases "PROTOTYPE target")
       (auto simp add: has_def getOwnPropertyDescriptor_def Let_def
          split: sum.splits option.splits if_splits)
qed

theorem C8_has_witness:
  "has ProxyTs example_engine \<lparr>PROTOTYPE = NullProto, PREFIX = [], CYCLES = None\<rparr> (ascii ''a'')
       \<lparr>rows = [([1, 0, 0x61, 0xff, 0xfe], [0])], saved = None\<rparr> = Inr True
   \<and> encodePath (PREFIX \<lparr>PROTOTYPE = NullProto, PREFIX = [], CYCLES = None\<rparr> @ [key (ascii ''a'')])
       = Inr [1, 0, 0x61, 0xff, 0xfe]
   \<and> True = (selectOne \<lparr>rows = [([1, 0, 0x61, 0xff, 0xfe], [0])], saved = None\<rparr>
                   [1, 0, 0x61, 0xff, 0xfe] \<noteq> None
               \<or> (PROTOTYPE \<lparr>PROTOTYPE = NullProto, PREFIX = [], CYCLES = None\<rparr> = ArrayPrototype
                   \<and> Array_prototype_has (ascii ''a'')))"
proof -
  have k: "key (ascii ''a'') = Str (ascii ''a'')"
    by (simp add: key_def number_defs)
  have e: "encodePath (PREFIX \<lparr>PROTOTYPE = NullProto, PREFIX = [], CYCLES = None\<rparr> @ [key (ascii ''a'')])
             = Inr [1, 0, 0x61, 0xff, 0xfe]"
    unfolding k by (simp add: encodePath_def ascii_def byte_defs)
  have h: "has ProxyTs example_engine \<lparr>PROTOTYPE = NullProto, PREFIX = [], CYCLES = None\<rparr> (ascii ''a'')
             \<lparr>rows = [([1, 0, 0x61, 0xff, 0xfe], [0])], saved = None\<rparr> = Inr True"
    using e
    by (simp add: has_def getOwnPropertyDescriptor_def selectOne_def instanciate_def tag_defs)
  from C8_has [OF h e] h e show ?thesis
    by simp
qed

text \<open>
  C8, as stated, fails on an array handle: \<^verbatim>\<open>"push" in table.a\<close> is true on an empty table,
  where no row is stored at the path \<^verbatim>\<open>["a", "push"]\<close> and the key is not \<^verbatim>\<open>"length"\<close>.
\<close>

theorem C8_counterexample:
  "has ProxyTs example_engine \<lparr>PROTOTYPE = ArrayPrototype, PREFIX = [Str (ascii ''a'')], CYCLES = None\<rparr>
       (ascii ''push'') \<lparr>rows = [], saved = None\<rparr> = Inr True
   \<and> ascii ''push'' \<noteq> ascii ''length''
   \<and> selectOne \<lparr>rows = [], saved = None\<rparr> [1, 0, 0x61, 0xff, 0xfe, 1, 0, 0x70, 0, 0x75, 0, 0x73, 0, 0x68, 0xff, 0xfe] = None
   \<and> encodePath [Str (ascii ''a''), key (ascii ''push'')]
       = Inr [1, 0, 0x61, 0xff, 0xfe, 1, 0, 0x70, 0, 0x75, 0, 0x73, 0, 0x68, 0xff, 0xfe]"
proof -
  have k: "key (ascii ''push'') = Str (ascii ''push'')"
    by (simp add: key_def number_defs)
  have e: "encodePath [Str (ascii ''a''), key (ascii ''push'')]
       = Inr [1, 0, 0x61, 0xff, 0xfe, 1, 0, 0x70, 0, 0x75, 0, 0x73, 0, 0x68, 0xff, 0xfe]"
    unfolding k by (simp add: encodePath_def ascii_def byte_defs)
  have n: "ascii ''push'' \<noteq> ascii ''length''"
    by (simp add: ascii_def)
  have p: "Array_prototype_has (ascii ''push'')"
    by (simp add: Array_prototype_has_def Array_prototype_names_def)
  show ?thesis
    using e n p by (simp add: has_def getOwnPropertyDescriptor_def selectOne_def)
qed

section \<open>Writes and the transaction\<close>

subsection \<open>Statements and the open transaction\<close>

lemma delete_run_saved [simp]: "saved (fst (delete_run db l u)) = saved db"
  by (simp add: delete_run_def)

lemma insert_run_saved: "insert_run db p v = Inr db' \<Longrightarrow> saved db' = saved db"
  by (auto simp add: insert_run_def split: if_splits)

lemma write_length_saved: "write_length E target desc db = Inr db' \<Longrightarrow> saved db' = saved db"
  by (auto simp add: write_length_def split: sum.splits option.splits if_splits)

lemma write_scalar_saved: "write_scalar desc encoded db = Inr db' \<Longrightarrow> saved db' = saved db"
  by (auto simp add: write_scalar_def insert_run_saved split: sum.splits if_splits)

lemma deleteProperty_saved: "deleteProperty rv target prop db = (r, db') \<Longrightarrow> saved db' = saved db"
  by (auto simp add: deleteProperty_def delete_run_def split: sum.splits if_splits prod.splits)

lemma deleteProperty_error: "deleteProperty rv target prop db = (Inl e, db') \<Longrightarrow> db' = db"
  by (auto simp add: deleteProperty_def split: sum.splits if_splits prod.splits)

subsection \<open>The loop over the entries\<close>

lemma for_entries_invariant:
  assumes "for_entries step c es db = (r, c', db')" and "Q c db"
    and "\<And>c k v db r c' db'. Q c db \<Longrightarrow> step c k v db = (r, c', db') \<Longrightarrow> Q c' db'"
  shows "Q c' db'"
  using assms(1,2)
proof (induction es arbitrary: c db)
  case Nil
  then show ?case by simp
next
  case (Cons kv es)
  obtain k v where kv: "kv = (k, v)" by (cases kv)
  obtain r1 c1 db1 where s: "step c k v db = (r1, c1, db1)"
    by (cases "step c k v db") auto
  have q1: "Q c1 db1"
    using assms(3) [OF Cons.prems(2) s] .
  show ?case
  proof (cases r1)
    case (Inl e)
    with Cons.prems(1) s kv q1 show ?thesis by simp
  next
    case (Inr x)
    with Cons.prems(1) s kv have "for_entries step c1 es db1 = (r, c', db')" by simp
    then show ?thesis using Cons.IH q1 by blast
  qed
qed

lemma for_entries_append:
  "for_entries step c (xs @ ys) db =
     (case for_entries step c xs db of
        (Inl e, c', db') \<Rightarrow> (Inl e, c', db')
      | (Inr x, c', db') \<Rightarrow> for_entries step c' ys db')"
proof (induction xs arbitrary: c db)
  case Nil
  then show ?case by simp
next
  case (Cons kv xs)
  obtain k v where kv: "kv = (k, v)" by (cases kv)
  show ?case
    unfolding kv by (simp add: Cons split: prod.splits sum.splits)
qed

subsection \<open>Nested calls\<close>

text \<open>
  A call made while a write is in progress (\<^verbatim>\<open>target[CYCLES]\<close> is set) leaves the
  transaction open, and the \<^verbatim>\<open>WeakSet\<close> only grows.
\<close>

lemma write_composite_nested:
  assumes self: "keeps_transaction self"
    and w: "write_composite self rv h target desc prefix encoded a db = (r, c', db')"
  shows "saved db' = saved db
         \<and> (cycles_has (CYCLES target) a \<longrightarrow> r = Inl Cyclic \<and> c' = CYCLES target)
         \<and> (\<not> cycles_has (CYCLES target) a \<longrightarrow>
              (\<exists>cs. c' = Some cs \<and> cycles_add (CYCLES target) a \<subseteq> cs))"
proof (cases "cycles_has (CYCLES target) a")
  case True
  with w show ?thesis
    by (auto simp add: write_composite_def)
next
  case False
  define c1 where "c1 = cycles_add (CYCLES target) a"
  show ?thesis
  proof (cases "invalid_descriptor desc")
    case True
    with False w show ?thesis
      by (auto simp add: write_composite_def Let_def)
  next
    case valid: False
    show ?thesis
    proof (cases "insert_run db encoded
                    (encodeComplex rv (if isArray h (val desc) then ArrayType else RecordType))")
      case (Inl e)
      with False valid w show ?thesis
        by (auto simp add: write_composite_def Let_def)
    next
      case (Inr db2)
      define t where "t = target\<lparr>PROTOTYPE := (if isArray h (val desc) then ArrayPrototype else NullProto),
                                   PREFIX := prefix\<rparr>"
      have loop: "for_entries (\<lambda>c k v. self (t\<lparr>CYCLES := c\<rparr>) k (set_descriptor t k v))
                    (Some c1) (entries (h a)) db2 = (r, c', db')"
        using False valid Inr w
        by (simp add: write_composite_def Let_def t_def c1_def)
      let ?Q = "\<lambda>c d. saved d = saved db \<and> (\<exists>cs. c = Some cs \<and> c1 \<subseteq> cs)"
      have "?Q c' db'"
      proof (rule for_entries_invariant [OF loop, where Q = ?Q])
        show "?Q (Some c1) db2"
          using Inr by (simp add: insert_run_saved)
      next
        fix c k v d r c' d'
        assume q: "?Q c d" and s: "self (t\<lparr>CYCLES := c\<rparr>) k (set_descriptor t k v) d = (r, c', d')"
        from q obtain cs where cs: "c = Some cs" "c1 \<subseteq> cs" by auto
        have "CYCLES (t\<lparr>CYCLES := c\<rparr>) = Some cs"
          using cs by simp
        with self s have "saved d' = saved d \<and> (\<exists>cs'. c' = Some cs' \<and> cs \<subseteq> cs')"
          unfolding keeps_transaction_def by blast
        with q cs show "?Q c' d'"
          by auto
      qed
      with False show ?thesis by (auto simp add: c1_def)
    qed
  qed
qed

lemma cycles_add_Some [simp]: "cycles_add (Some c) a = insert a c"
  by (simp add: cycles_add_def)

lemma cycles_add_None [simp]: "cycles_add None a = {a}"
  by (simp add: cycles_add_def)

lemma cycles_has_Some [simp]: "cycles_has (Some c) a = (a \<in> c)"
  by (simp add: cycles_has_def)

lemma cycles_has_None [simp]: "\<not> cycles_has None a"
  by (simp add: cycles_has_def)

lemma try_block_nested:
  assumes self: "keeps_transaction self"
    and "CYCLES target = Some c"
    and "try_block self rv E h target prop desc prefix encoded db = (r, c', db')"
  shows "saved db' = saved db \<and> (\<exists>cs. c' = Some cs \<and> c \<subseteq> cs)"
proof (cases "PROTOTYPE target = ArrayPrototype \<and> prop = ascii ''length''")
  case True
  with assms(3) show ?thesis
    by (auto simp add: try_block_def Let_def assms(2) write_length_saved split: sum.splits)
next
  case False
  show ?thesis
  proof (cases "\<not> isArray h (val desc) \<and> \<not> isRecord h (val desc)")
    case True
    with False assms(3) show ?thesis
      by (auto simp add: try_block_def Let_def assms(2) write_scalar_saved split: sum.splits)
  next
    case comp: False
    show ?thesis
    proof (cases "val desc")
      case (Ref a)
      with False comp assms(3)
      have "write_composite self rv h target desc prefix encoded a db = (r, c', db')"
        by (auto simp add: try_block_def Let_def assms(2))
      from write_composite_nested [OF self this] assms(2) show ?thesis
        by (cases "a \<in> c") auto
    qed (use False comp assms(3) in \<open>auto simp add: try_block_def Let_def assms(2)\<close>)
  qed
qed

lemma defineProperty_body_nested:
  assumes self: "keeps_transaction self"
    and "CYCLES target = Some c"
    and "defineProperty_body self rv E h target prop desc db = (r, c', db')"
  shows "saved db' = saved db \<and> (\<exists>cs. c' = Some cs \<and> c \<subseteq> cs)"
proof (cases "val desc = Undefined")
  case True
  with assms(3) show ?thesis
    by (auto simp add: defineProperty_body_def assms(2) split: prod.splits sum.splits
        dest: deleteProperty_saved)
next
  case False
  show ?thesis
  proof (cases "encodePath (PREFIX target @ [key prop])")
    case (Inl e)
    with False assms(3) show ?thesis
      by (auto simp add: defineProperty_body_def assms(2))
  next
    case (Inr encoded)
    obtain r1 c1 db1 where t: "try_block self rv E h target prop desc
                                  (PREFIX target @ [key prop]) encoded db = (r1, c1, db1)"
      by (metis prod_cases3)
    from try_block_nested [OF self assms(2) t]
    have "saved db1 = saved db \<and> (\<exists>cs. c1 = Some cs \<and> c \<subseteq> cs)" .
    moreover have "c' = c1 \<and> db' = db1"
      using False Inr t assms(3)
      by (auto simp add: defineProperty_body_def Let_def assms(2) split: sum.splits)
    ultimately show ?thesis by simp
  qed
qed

lemma defineProperty_nested: "keeps_transaction (defineProperty depth rv E h)"
proof (induction depth)
  case 0
  show ?case
    by (auto simp add: keeps_transaction_def)
next
  case (Suc depth)
  show ?case
    unfolding keeps_transaction_def
  proof (intro allI impI)
    fix t p d db r c' db' c
    assume c: "CYCLES t = Some c" and "defineProperty (Suc depth) rv E h t p d db = (r, c', db')"
    then have "defineProperty_body (defineProperty depth rv E h) rv E h t p d db = (r, c', db')"
      by simp
    from defineProperty_body_nested [OF Suc c this]
    show "saved db' = saved db \<and> (\<exists>cs. c' = Some cs \<and> c \<subseteq> cs)" .
  qed
qed

subsection \<open>Top-level calls\<close>

lemma exec_BEGIN: "saved db = None \<Longrightarrow> exec BEGIN db = Inr (db\<lparr>saved := Some (rows db)\<rparr>)"
  by simp

lemma try_block_top:
  assumes self: "keeps_transaction self"
    and top: "CYCLES target = None" "saved db = None"
    and t: "try_block self rv E h target prop desc prefix encoded db = (r, c', db')"
  shows "saved db' = Some (rows db)"
proof -
  define db1 where "db1 = fst (delete_run (db\<lparr>saved := Some (rows db)\<rparr>) encoded (increment rv encoded))"
  have s1: "saved db1 = Some (rows db)"
    by (simp add: db1_def)
  show ?thesis
  proof (cases "PROTOTYPE target = ArrayPrototype \<and> prop = ascii ''length''")
    case True
    with t s1 show ?thesis
      by (auto simp add: try_block_def Let_def top db1_def [symmetric] split: sum.splits
          dest: write_length_saved)
  next
    case False
    show ?thesis
    proof (cases "\<not> isArray h (val desc) \<and> \<not> isRecord h (val desc)")
      case True
      with False t s1 show ?thesis
        by (auto simp add: try_block_def Let_def top db1_def [symmetric] split: sum.splits
            dest: write_scalar_saved)
    next
      case comp: False
      show ?thesis
      proof (cases "val desc")
        case (Ref a)
        with False comp t
        have "write_composite self rv h target desc prefix encoded a db1 = (r, c', db')"
          by (auto simp add: try_block_def Let_def top db1_def [symmetric])
        from write_composite_nested [OF self this] s1 show ?thesis
          by simp
      qed (use False comp t s1 in \<open>auto simp add: try_block_def Let_def top db1_def [symmetric]\<close>)
    qed
  qed
qed

lemma defineProperty_top_error:
  assumes top: "CYCLES target = None" "saved db = None"
    and d: "defineProperty depth rv E h target prop desc db = (Inl e, c', db')"
  shows "rows db' = rows db \<and> saved db' = None \<and> c' = None"
proof (cases depth)
  case 0
  with d top show ?thesis by auto
next
  case (Suc n)
  let ?self = "defineProperty n rv E h"
  from d Suc have b: "defineProperty_body ?self rv E h target prop desc db = (Inl e, c', db')"
    by simp
  show ?thesis
  proof (cases "val desc = Undefined")
    case True
    with b top show ?thesis
      by (auto simp add: defineProperty_body_def split: prod.splits sum.splits
          dest: deleteProperty_error)
  next
    case False
    show ?thesis
    proof (cases "encodePath (PREFIX target @ [key prop])")
      case (Inl x)
      with False b top show ?thesis
        by (auto simp add: defineProperty_body_def)
    next
      case (Inr encoded)
      obtain r1 c1 db1 where t: "try_block ?self rv E h target prop desc
                                    (PREFIX target @ [key prop]) encoded db = (r1, c1, db1)"
        by (metis prod_cases3)
      have s: "saved db1 = Some (rows db)"
        using try_block_top [OF defineProperty_nested top t] .
      show ?thesis
        using False Inr t s b
        by (cases r1) (auto simp add: defineProperty_body_def Let_def top)
    qed
  qed
qed

text \<open>
  C4: a top-level write (no write in progress on the handle, no transaction open) that
  throws leaves the rows of the table as they were before it began, whatever was
  deleted or inserted on the way, also by the writes of the children of a composite;
  the error it throws is the one that was raised. A top-level delete that throws has
  changed nothing either.
\<close>

theorem C4_failed_write_rolls_back:
  assumes "CYCLES target = None" and "saved db = None"
  shows "(defineProperty depth rv E h target prop desc db = (Inl e, c', db')
            \<longrightarrow> rows db' = rows db \<and> saved db' = None)
         \<and> (set_trap depth rv E h target prop v db = (Inl e, c', db')
            \<longrightarrow> rows db' = rows db \<and> saved db' = None)
         \<and> (deleteProperty rv target prop db = (Inl e, db') \<longrightarrow> db' = db)"
  using assms defineProperty_top_error deleteProperty_error
  unfolding set_trap_def by blast

theorem C4_failed_write_rolls_back_witness:
  "CYCLES \<lparr>PROTOTYPE = NullProto, PREFIX = [], CYCLES = None\<rparr> = None
   \<and> saved \<lparr>rows = [([1, 0, 0x6b, 0xff, 0xfe], [0])], saved = None\<rparr> = None
   \<and> set_trap (Suc (Suc 0)) ProxyTs example_engine
         (\<lambda>a. \<lparr>kind = RecordType, entries = [(ascii ''a'', Null), (ascii ''b'', Other)]\<rparr>)
         \<lparr>PROTOTYPE = NullProto, PREFIX = [], CYCLES = None\<rparr> (ascii ''k'') (Ref 0)
         \<lparr>rows = [([1, 0, 0x6b, 0xff, 0xfe], [0])], saved = None\<rparr>
       = (Inl UnsupportedType, None, \<lparr>rows = [([1, 0, 0x6b, 0xff, 0xfe], [0])], saved = None\<rparr>)
   \<and> rows \<lparr>rows = [([1, 0, 0x6b, 0xff, 0xfe], [0])], saved = None\<rparr>
       = rows \<lparr>rows = [([1, 0, 0x6b, 0xff, 0xfe], [0])], saved = None\<rparr>"
proof -
  let ?t = "\<lparr>PROTOTYPE = NullProto, PREFIX = [], CYCLES = None\<rparr>"
  let ?db = "\<lparr>rows = [([1, 0, 0x6b, 0xff, 0xfe], [0])], saved = None\<rparr>"
  let ?h = "\<lambda>a::nat. \<lparr>kind = RecordType, entries = [(ascii ''a'', Null), (ascii ''b'', Other)]\<rparr>"
  have k: "key (ascii ''k'') = Str (ascii ''k'')" "key (ascii ''a'') = Str (ascii ''a'')"
    "key (ascii ''b'') = Str (ascii ''b'')"
    by (simp_all add: key_def number_defs)
  have l: "ascii ''k'' \<noteq> ascii ''length''"
    by (simp add: ascii_def)
  have e: "encodePath [Str (ascii ''k'')] = Inr [1, 0, 0x6b, 0xff, 0xfe]"
    "encodePath [Str (ascii ''k''), Str (ascii ''a'')] = Inr [1, 0, 0x6b, 0xff, 0xfe, 1, 0, 0x61, 0xff, 0xfe]"
    "encodePath [Str (ascii ''k''), Str (ascii ''b'')] = Inr [1, 0, 0x6b, 0xff, 0xfe, 1, 0, 0x62, 0xff, 0xfe]"
    by (simp_all add: encodePath_def ascii_def byte_defs)
  have ev: "set_trap (Suc (Suc 0)) ProxyTs example_engine ?h ?t (ascii ''k'') (Ref 0) ?db
              = (Inl UnsupportedType, None, ?db)"
    by (simp add: set_trap_def set_descriptor_def defineProperty_body_def try_block_def
        write_composite_def write_scalar_def Let_def k l e delete_run_def in_range_def blob_le_def
        invalid_descriptor_def insert_run_def selectOne_def tag_defs)
  have h1: "CYCLES ?t = None" and h2: "saved ?db = None"
    by simp_all
  from C4_failed_write_rolls_back [OF h1 h2, of "Suc (Suc 0)" ProxyTs example_engine ?h "ascii ''k''"]
    ev h1 h2
  show ?thesis
    by simp
qed

section \<open>Shared objects and the cycle guard\<close>

subsection \<open>The cycle guard\<close>

lemma composite_kind: "(if isArray h (Ref a) then ArrayType else RecordType) = kind (h a)"
  by (cases "kind (h a)") auto

lemma Ref_composite: "isArray h (Ref a) \<or> isRecord h (Ref a)"
  by (cases "kind (h a)") auto

lemma for_entries_success_split:
  assumes "for_entries step c (xs @ ys) db = (Inr x, c', db')"
  shows "\<exists>x1 c1 db1. for_entries step c xs db = (Inr x1, c1, db1)
                     \<and> for_entries step c1 ys db1 = (Inr x, c', db')"
proof -
  obtain r1 c1 db1 where f: "for_entries step c xs db = (r1, c1, db1)"
    by (metis prod_cases3)
  with assms show ?thesis
    by (cases r1) (auto simp add: for_entries_append)
qed

lemma nested_cyclic:
  assumes "CYCLES t = Some c" and "a \<in> c" and "val d = Ref a"
    and "\<not> (PROTOTYPE t = ArrayPrototype \<and> p = ascii ''length'')"
    and "encodePath (PREFIX t @ [key p]) = Inr e"
  shows "defineProperty (Suc n) rv E h t p d db = (Inl Cyclic, Some c, db)"
  using assms Ref_composite [of h a]
  by (auto simp add: defineProperty_body_def try_block_def write_composite_def Let_def)

lemma isArray_cong: "\<forall>a. kind (h a) = kind (h' a) \<Longrightarrow> isArray h v = isArray h' v"
  by (cases v) auto

lemma isRecord_cong: "\<forall>a. kind (h a) = kind (h' a) \<Longrightarrow> isRecord h v = isRecord h' v"
  by (cases v) auto

subsection \<open>A top-level write of a composite\<close>

lemma val_set_descriptor [simp]: "val (set_descriptor t k v) = v"
  by (simp add: set_descriptor_def)

lemma try_block_top_composite:
  assumes "CYCLES target = None" and "saved db = None" and "val desc = Ref r"
    and "\<not> (PROTOTYPE target = ArrayPrototype \<and> prop = ascii ''length'')"
  shows "try_block self rv E h target prop desc prefix encoded db =
           write_composite self rv h target desc prefix encoded r
             (fst (delete_run (db\<lparr>saved := Some (rows db)\<rparr>) encoded (increment rv encoded)))"
  using assms Ref_composite [of h r]
  by (auto simp add: try_block_def Let_def)

lemma write_composite_top:
  assumes "CYCLES target = None" and "val desc = Ref r"
  shows "write_composite self rv h target desc prefix encoded r db1 =
           (if invalid_descriptor desc then (Inl InvalidDescriptor, Some {r}, db1)
            else case insert_run db1 encoded (encodeComplex rv (kind (h r))) of
                   Inl e \<Rightarrow> (Inl e, Some {r}, db1)
                 | Inr db2 \<Rightarrow>
                     for_entries
                       (\<lambda>c k v. self
                          (target\<lparr>PROTOTYPE := (if kind (h r) = ArrayType then ArrayPrototype
                                                  else NullProto),
                                   PREFIX := prefix, CYCLES := c\<rparr>) k
                          (set_descriptor
                             (target\<lparr>PROTOTYPE := (if kind (h r) = ArrayType then ArrayPrototype
                                                     else NullProto),
                                      PREFIX := prefix\<rparr>) k v))
                       (Some {r}) (entries (h r)) db2)"
  using assms
  by (cases "kind (h r)") (simp_all add: write_composite_def Let_def split: sum.splits)

lemma defineProperty_body_top:
  assumes "CYCLES target = None" and "val desc \<noteq> Undefined"
    and "encodePath (PREFIX target @ [key prop]) = Inr encoded"
    and "try_block self rv E h target prop desc (PREFIX target @ [key prop]) encoded db
           = (r1, c1, db1)"
    and "saved db1 = Some old"
  shows "defineProperty_body self rv E h target prop desc db =
           (case r1 of
              Inl err \<Rightarrow> (Inl err, None, db1\<lparr>rows := old, saved := None\<rparr>)
            | Inr x \<Rightarrow> (Inr True, None, db1\<lparr>saved := None\<rparr>))"
  using assms
  by (cases r1) (simp_all add: defineProperty_body_def Let_def)

subsection \<open>Positions\<close>

lemma value_at_Ref_Cons:
  "value_at h (Ref a) (i # p) =
     (if i < length (entries (h a)) then value_at h (snd (entries (h a) ! i)) p else None)"
  by simp

lemma value_at_scalar: "\<forall>a. v \<noteq> Ref a \<Longrightarrow> value_at h v p \<noteq> Some (Ref b)"
  by (cases p; cases v) auto

lemma for_entries_True: "for_entries step c es db = (Inr x, c', db') \<Longrightarrow> x"
proof (induction es arbitrary: c db)
  case Nil
  then show ?case by simp
next
  case (Cons kv es)
  obtain k v where kv: "kv = (k, v)" by (cases kv)
  from Cons.prems show ?case
    unfolding kv by (auto split: prod.splits sum.splits dest: Cons.IH)
qed

lemma for_entries_visits:
  assumes step: "\<And>c k v db x c' db'. (k, v) \<in> set es \<Longrightarrow> step (Some c) k v db = (Inr x, c', db') \<Longrightarrow>
            \<exists>cs. c' = Some cs \<and> c \<subseteq> cs
              \<and> (\<forall>p a. value_at h v p = Some (Ref a) \<longrightarrow>
                    a \<in> cs \<and> a \<notin> c \<and> (\<forall>q. value_at h v q = Some (Ref a) \<longrightarrow> q = p))"
    and loop: "for_entries step (Some c) es db = (Inr x, c', db')"
  shows "\<exists>cs. c' = Some cs \<and> c \<subseteq> cs
           \<and> (\<forall>i p a. i < length es \<longrightarrow> value_at h (snd (es ! i)) p = Some (Ref a) \<longrightarrow>
                 a \<in> cs \<and> a \<notin> c
                 \<and> (\<forall>j q. j < length es \<longrightarrow> value_at h (snd (es ! j)) q = Some (Ref a) \<longrightarrow>
                       j = i \<and> q = p))"
  using step loop
proof (induction es arbitrary: c db)
  case Nil
  then show ?case by auto
next
  case (Cons kv es)
  obtain k v where kv: "kv = (k, v)" by (cases kv)
  obtain r1 c1 db1 where s: "step (Some c) k v db = (r1, c1, db1)"
    by (metis prod_cases3)
  with Cons.prems(2) kv obtain y where r1: "r1 = Inr y"
    and rest: "for_entries step c1 es db1 = (Inr x, c', db')"
    by (cases r1) auto
  have "(k, v) \<in> set (kv # es)" using kv by simp
  from Cons.prems(1) [OF this s [unfolded r1]]
  obtain cs1 where cs1: "c1 = Some cs1" "c \<subseteq> cs1"
    and first: "\<And>p a. value_at h v p = Some (Ref a) \<Longrightarrow>
                  a \<in> cs1 \<and> a \<notin> c \<and> (\<forall>q. value_at h v q = Some (Ref a) \<longrightarrow> q = p)"
    by blast
  have "\<exists>cs. c' = Some cs \<and> cs1 \<subseteq> cs
           \<and> (\<forall>i p a. i < length es \<longrightarrow> value_at h (snd (es ! i)) p = Some (Ref a) \<longrightarrow>
                 a \<in> cs \<and> a \<notin> cs1
                 \<and> (\<forall>j q. j < length es \<longrightarrow> value_at h (snd (es ! j)) q = Some (Ref a) \<longrightarrow>
                       j = i \<and> q = p))"
  proof (rule Cons.IH)
    show "for_entries step (Some cs1) es db1 = (Inr x, c', db')"
      using rest cs1 by simp
  next
    fix c k v db x c' db'
    assume "(k, v) \<in> set es" and "step (Some c) k v db = (Inr x, c', db')"
    then show "\<exists>cs. c' = Some cs \<and> c \<subseteq> cs
              \<and> (\<forall>p a. value_at h v p = Some (Ref a) \<longrightarrow>
                    a \<in> cs \<and> a \<notin> c \<and> (\<forall>q. value_at h v q = Some (Ref a) \<longrightarrow> q = p))"
      using Cons.prems(1) [of k v c db x c' db'] by simp
  qed
  then obtain cs where cs: "c' = Some cs" "cs1 \<subseteq> cs"
    and others: "\<And>i p a. i < length es \<Longrightarrow> value_at h (snd (es ! i)) p = Some (Ref a) \<Longrightarrow>
                  a \<in> cs \<and> a \<notin> cs1
                  \<and> (\<forall>j q. j < length es \<longrightarrow> value_at h (snd (es ! j)) q = Some (Ref a) \<longrightarrow>
                        j = i \<and> q = p)"
    by blast
  have "a \<in> cs \<and> a \<notin> c
        \<and> (\<forall>j q. j < length (kv # es) \<longrightarrow> value_at h (snd ((kv # es) ! j)) q = Some (Ref a) \<longrightarrow>
              j = i \<and> q = p)"
    if i: "i < length (kv # es)" and a: "value_at h (snd ((kv # es) ! i)) p = Some (Ref a)"
    for i p a
  proof (cases i)
    case 0
    with a kv have a0: "value_at h v p = Some (Ref a)" by simp
    from first [OF a0] have f: "a \<in> cs1" "a \<notin> c" "\<And>q. value_at h v q = Some (Ref a) \<Longrightarrow> q = p"
      by auto
    have "j = i \<and> q = p"
      if "j < length (kv # es)" and "value_at h (snd ((kv # es) ! j)) q = Some (Ref a)" for j q
    proof (cases j)
      case 0
      with that kv f(3) \<open>i = 0\<close> show ?thesis by simp
    next
      case (Suc j')
      with that have "j' < length es" "value_at h (snd (es ! j')) q = Some (Ref a)" by simp_all
      from others [OF this] f(1) show ?thesis by simp
    qed
    with f cs show ?thesis by auto
  next
    case (Suc i')
    with i a have a1: "i' < length es" "value_at h (snd (es ! i')) p = Some (Ref a)" by simp_all
    from others [OF a1] have o: "a \<in> cs" "a \<notin> cs1"
      "\<And>j q. j < length es \<Longrightarrow> value_at h (snd (es ! j)) q = Some (Ref a) \<Longrightarrow> j = i' \<and> q = p"
      by auto
    have "j = i \<and> q = p"
      if "j < length (kv # es)" and "value_at h (snd ((kv # es) ! j)) q = Some (Ref a)" for j q
    proof (cases j)
      case 0
      with that kv have "value_at h v q = Some (Ref a)" by simp
      from first [OF this] o(2) show ?thesis by simp
    next
      case (Suc j')
      with that have "j' < length es" "value_at h (snd (es ! j')) q = Some (Ref a)" by simp_all
      from o(3) [OF this] Suc \<open>i = Suc i'\<close> show ?thesis by simp
    qed
    with o cs1 show ?thesis by auto
  qed
  with cs cs1 show ?case by auto
qed

subsection \<open>The branch for a composite\<close>

lemma write_composite_success:
  assumes "write_composite self rv h target desc prefix encoded a db = (Inr x, c', db')"
  shows "\<not> cycles_has (CYCLES target) a \<and> \<not> invalid_descriptor desc
         \<and> (\<exists>db2. insert_run db encoded
                     (encodeComplex rv (if isArray h (val desc) then ArrayType else RecordType))
                   = Inr db2)"
  using assms
  by (auto simp add: write_composite_def Let_def split: if_splits sum.splits)

lemma write_composite_loop:
  assumes "\<not> cycles_has (CYCLES target) a" and "\<not> invalid_descriptor desc"
    and "val desc = Ref a"
    and "insert_run db encoded (encodeComplex rv (kind (h a))) = Inr db2"
  shows "write_composite self rv h target desc prefix encoded a db =
           for_entries
             (\<lambda>c k v. self
                (target\<lparr>PROTOTYPE := (if kind (h a) = ArrayType then ArrayPrototype else NullProto),
                         PREFIX := prefix, CYCLES := c\<rparr>) k
                (set_descriptor
                   (target\<lparr>PROTOTYPE := (if kind (h a) = ArrayType then ArrayPrototype
                                           else NullProto),
                            PREFIX := prefix\<rparr>) k v))
             (Some (cycles_add (CYCLES target) a)) (entries (h a)) db2"
  using assms
  by (cases "kind (h a)") (simp_all add: write_composite_def Let_def)

lemma write_composite_True:
  "write_composite self rv h target desc prefix encoded a db = (Inr x, c', db') \<Longrightarrow> x"
  by (auto simp add: write_composite_def Let_def split: if_splits sum.splits
      dest: for_entries_True)

lemma nested_body_composite:
  assumes c: "CYCLES t = Some c" and v: "val d = Ref a"
    and nl: "\<not> (PROTOTYPE t = ArrayPrototype \<and> k = ascii ''length'')"
    and e: "encodePath (PREFIX t @ [key k]) = Inr encoded"
  shows "defineProperty_body self rv E h t k d db
           = write_composite self rv h t d (PREFIX t @ [key k]) encoded a db"
proof -
  obtain r1 c1 db1 where w: "write_composite self rv h t d (PREFIX t @ [key k]) encoded a db
                               = (r1, c1, db1)"
    by (metis prod_cases3)
  have tb: "try_block self rv E h t k d (PREFIX t @ [key k]) encoded db = (r1, c1, db1)"
    using w v nl c Ref_composite [of h a]
    by (auto simp add: try_block_def Let_def)
  show ?thesis
  proof (cases r1)
    case (Inl err)
    with tb w v c e show ?thesis
      by (simp add: defineProperty_body_def Let_def)
  next
    case (Inr x)
    with w have x by (auto dest: write_composite_True)
    with Inr tb w v c e show ?thesis
      by (simp add: defineProperty_body_def Let_def)
  qed
qed

lemma success_encodes:
  assumes "defineProperty n rv E h t k d db = (Inr x, c', db')" and "val d \<noteq> Undefined"
  shows "\<exists>m e. n = Suc m \<and> encodePath (PREFIX t @ [key k]) = Inr e"
proof (cases n)
  case 0
  with assms show ?thesis by simp
next
  case (Suc m)
  with assms show ?thesis
    by (cases "encodePath (PREFIX t @ [key k])") (auto simp add: defineProperty_body_def)
qed

lemma body_success_encodes:
  assumes "defineProperty_body self rv E h t k d db = (Inr x, c', db')" and "val d \<noteq> Undefined"
  shows "\<exists>e. encodePath (PREFIX t @ [key k]) = Inr e"
  using assms
  by (cases "encodePath (PREFIX t @ [key k])") (auto simp add: defineProperty_body_def)

subsection \<open>A write that returns has entered every composite once\<close>

lemma array_entries_ok_key:
  assumes "array_entries_ok h" and "(k, v) \<in> set (entries (h a))"
  shows "\<not> ((if kind (h a) = ArrayType then ArrayPrototype else NullProto) = ArrayPrototype
            \<and> k = ascii ''length'')"
  using assms by (force simp add: array_entries_ok_def)

lemma visits_onceD:
  assumes "visits_once h self" and "CYCLES t = Some c"
    and "\<not> (PROTOTYPE t = ArrayPrototype \<and> k = ascii ''length'')"
    and "self t k d db = (Inr x, c', db')"
  shows "\<exists>cs. c' = Some cs \<and> c \<subseteq> cs
           \<and> (\<forall>p a. value_at h (val d) p = Some (Ref a) \<longrightarrow>
                 a \<in> cs \<and> a \<notin> c \<and> (\<forall>q. value_at h (val d) q = Some (Ref a) \<longrightarrow> q = p))"
  using assms(1) [unfolded visits_once_def, rule_format, OF assms(2,3,4)] .

lemma write_composite_visits:
  assumes self: "visits_once h self" and wf: "array_entries_ok h" and v: "val desc = Ref r"
    and w: "write_composite self rv h target desc prefix encoded r db = (Inr x, c', db')"
  shows "\<exists>cs. c' = Some cs \<and> cycles_add (CYCLES target) r \<subseteq> cs
           \<and> (\<forall>p a. value_at h (Ref r) p = Some (Ref a) \<longrightarrow>
                 a \<in> cs \<and> \<not> cycles_has (CYCLES target) a
                 \<and> (\<forall>q. value_at h (Ref r) q = Some (Ref a) \<longrightarrow> q = p))"
proof -
  let ?c1 = "cycles_add (CYCLES target) r"
  let ?es = "entries (h r)"
  define child where
    "child = target\<lparr>PROTOTYPE := (if kind (h r) = ArrayType then ArrayPrototype else NullProto),
                    PREFIX := prefix\<rparr>"
  let ?step = "\<lambda>c k v. self (child\<lparr>CYCLES := c\<rparr>) k (set_descriptor child k v)"
  from write_composite_success [OF w] v
  obtain db2 where fresh: "\<not> cycles_has (CYCLES target) r" and valid: "\<not> invalid_descriptor desc"
    and ins: "insert_run db encoded (encodeComplex rv (kind (h r))) = Inr db2"
    by (cases "kind (h r)") auto
  have loop: "for_entries ?step (Some ?c1) ?es db2 = (Inr x, c', db')"
    using write_composite_loop [where h = h and self = self and prefix = prefix,
        OF fresh valid v ins] w
    by (simp add: child_def)
  have incl: "cycles_has (CYCLES target) a \<Longrightarrow> a \<in> ?c1" for a
    by (cases "CYCLES target") simp_all
  have "\<exists>cs. c' = Some cs \<and> ?c1 \<subseteq> cs
           \<and> (\<forall>i p a. i < length ?es \<longrightarrow> value_at h (snd (?es ! i)) p = Some (Ref a) \<longrightarrow>
                 a \<in> cs \<and> a \<notin> ?c1
                 \<and> (\<forall>j q. j < length ?es \<longrightarrow> value_at h (snd (?es ! j)) q = Some (Ref a) \<longrightarrow>
                       j = i \<and> q = p))"
  proof (rule for_entries_visits [OF _ loop])
    fix c k v d y c1 d1
    assume kv: "(k, v) \<in> set ?es" and s: "?step (Some c) k v d = (Inr y, c1, d1)"
    have "CYCLES (child\<lparr>CYCLES := Some c\<rparr>) = Some c" by simp
    moreover have "\<not> (PROTOTYPE (child\<lparr>CYCLES := Some c\<rparr>) = ArrayPrototype \<and> k = ascii ''length'')"
      using array_entries_ok_key [OF wf kv] by (simp add: child_def)
    ultimately have "\<exists>cs. c1 = Some cs \<and> c \<subseteq> cs
              \<and> (\<forall>p a. value_at h (val (set_descriptor child k v)) p = Some (Ref a) \<longrightarrow>
                    a \<in> cs \<and> a \<notin> c
                    \<and> (\<forall>q. value_at h (val (set_descriptor child k v)) q = Some (Ref a) \<longrightarrow>
                          q = p))"
      using s by (rule visits_onceD [OF self])
    then show "\<exists>cs. c1 = Some cs \<and> c \<subseteq> cs
              \<and> (\<forall>p a. value_at h v p = Some (Ref a) \<longrightarrow>
                    a \<in> cs \<and> a \<notin> c \<and> (\<forall>q. value_at h v q = Some (Ref a) \<longrightarrow> q = p))"
      by (simp only: val_set_descriptor)
  qed
  then obtain cs where cs: "c' = Some cs" "?c1 \<subseteq> cs"
    and ch: "\<And>i p a. i < length ?es \<Longrightarrow> value_at h (snd (?es ! i)) p = Some (Ref a) \<Longrightarrow>
               a \<in> cs \<and> a \<notin> ?c1
               \<and> (\<forall>j q. j < length ?es \<longrightarrow> value_at h (snd (?es ! j)) q = Some (Ref a) \<longrightarrow>
                     j = i \<and> q = p)"
    by blast
  have r1: "r \<in> ?c1"
    by (cases "CYCLES target") simp_all
  have "a \<in> cs \<and> \<not> cycles_has (CYCLES target) a
        \<and> (\<forall>q. value_at h (Ref r) q = Some (Ref a) \<longrightarrow> q = p)"
    if a: "value_at h (Ref r) p = Some (Ref a)" for p a
  proof (cases p)
    case Nil
    with a have ar: "a = r" by simp
    have "q = p" if "value_at h (Ref r) q = Some (Ref a)" for q
    proof (cases q)
      case Nil
      with \<open>p = []\<close> show ?thesis by simp
    next
      case (Cons j q')
      with that ar have "j < length ?es" "value_at h (snd (?es ! j)) q' = Some (Ref r)"
        by (auto split: if_splits)
      from ch [OF this] r1 show ?thesis by simp
    qed
    with ar r1 cs fresh show ?thesis by auto
  next
    case (Cons i p')
    with a have ip: "i < length ?es" "value_at h (snd (?es ! i)) p' = Some (Ref a)"
      by (auto split: if_splits)
    from ch [OF ip] have o: "a \<in> cs" "a \<notin> ?c1"
      "\<And>j q. j < length ?es \<Longrightarrow> value_at h (snd (?es ! j)) q = Some (Ref a) \<Longrightarrow> j = i \<and> q = p'"
      by auto
    have "q = p" if "value_at h (Ref r) q = Some (Ref a)" for q
    proof (cases q)
      case Nil
      with that have "a = r" by simp
      with o(2) r1 show ?thesis by simp
    next
      case (Cons j q')
      with that have "j < length ?es" "value_at h (snd (?es ! j)) q' = Some (Ref a)"
        by (auto split: if_splits)
      from o(3) [OF this] Cons \<open>p = i # p'\<close> show ?thesis by simp
    qed
    with o incl show ?thesis by auto
  qed
  with cs show ?thesis by blast
qed

lemma defineProperty_body_visits:
  assumes self: "visits_once h self" and keeps: "keeps_transaction self"
    and wf: "array_entries_ok h"
  shows "visits_once h (defineProperty_body self rv E h)"
  unfolding visits_once_def
proof (intro allI impI)
  fix t k d db x c' db' c
  assume c: "CYCLES t = Some c"
    and nl: "\<not> (PROTOTYPE t = ArrayPrototype \<and> k = ascii ''length'')"
    and b: "defineProperty_body self rv E h t k d db = (Inr x, c', db')"
  from defineProperty_body_nested [OF keeps c b]
  obtain cs where cs: "c' = Some cs" "c \<subseteq> cs" by auto
  show "\<exists>cs. c' = Some cs \<and> c \<subseteq> cs
          \<and> (\<forall>p a. value_at h (val d) p = Some (Ref a) \<longrightarrow>
                a \<in> cs \<and> a \<notin> c \<and> (\<forall>q. value_at h (val d) q = Some (Ref a) \<longrightarrow> q = p))"
  proof (cases "\<exists>r. val d = Ref r")
    case False
    then have "value_at h (val d) p \<noteq> Some (Ref a)" for p a
      using value_at_scalar [of "val d" h p a] by blast
    with cs show ?thesis by simp
  next
    case True
    then obtain r where v: "val d = Ref r" by blast
    then have "val d \<noteq> Undefined" by simp
    from body_success_encodes [OF b this]
    obtain encoded where e: "encodePath (PREFIX t @ [key k]) = Inr encoded" by blast
    from nested_body_composite [OF c v nl e, of self rv E h db] b
    have "write_composite self rv h t d (PREFIX t @ [key k]) encoded r db = (Inr x, c', db')"
      by simp
    from write_composite_visits [OF self wf v this] c cs v show ?thesis
      by auto
  qed
qed

lemma defineProperty_visits:
  "array_entries_ok h \<Longrightarrow> visits_once h (defineProperty n rv E h)"
proof (induction n)
  case 0
  show ?case by (simp add: visits_once_def)
next
  case (Suc n)
  have "visits_once h (defineProperty_body (defineProperty n rv E h) rv E h)"
    using Suc defineProperty_nested by (intro defineProperty_body_visits) auto
  then show ?case
    by (simp add: visits_once_def)
qed

subsection \<open>The outermost call on a composite\<close>

lemma top_composite_success:
  assumes top: "CYCLES target = None" "saved db = None"
    and v: "val desc = Ref r"
    and nl: "\<not> (PROTOTYPE target = ArrayPrototype \<and> prop = ascii ''length'')"
    and ok: "defineProperty depth rv E h target prop desc db = (Inr x, c, db')"
  shows "\<exists>n encoded c1 db3.
           depth = Suc n \<and> encodePath (PREFIX target @ [key prop]) = Inr encoded
           \<and> write_composite (defineProperty n rv E h) rv h target desc
                (PREFIX target @ [key prop]) encoded r
                (fst (delete_run (db\<lparr>saved := Some (rows db)\<rparr>) encoded (increment rv encoded)))
               = (Inr True, c1, db3)
           \<and> db' = db3\<lparr>saved := None\<rparr>"
proof -
  from ok obtain n where depth: "depth = Suc n"
    by (cases depth) auto
  let ?self = "defineProperty n rv E h"
  let ?prefix = "PREFIX target @ [key prop]"
  have nu: "val desc \<noteq> Undefined" using v by simp
  from ok depth have b: "defineProperty_body ?self rv E h target prop desc db = (Inr x, c, db')"
    by simp
  from body_success_encodes [OF b nu]
  obtain encoded where enc: "encodePath ?prefix = Inr encoded" by blast
  obtain r1 c1 db3 where t: "try_block ?self rv E h target prop desc ?prefix encoded db = (r1, c1, db3)"
    by (metis prod_cases3)
  have s3: "saved db3 = Some (rows db)"
    using try_block_top [OF defineProperty_nested top t] .
  from defineProperty_body_top [OF top(1) nu enc t s3] b
  have r1: "\<exists>u. r1 = Inr u" and db': "db' = db3\<lparr>saved := None\<rparr>"
    by (cases r1; simp)+
  have w: "write_composite ?self rv h target desc ?prefix encoded r
             (fst (delete_run (db\<lparr>saved := Some (rows db)\<rparr>) encoded (increment rv encoded)))
           = (r1, c1, db3)"
    using try_block_top_composite [OF top v nl, of ?self rv E h ?prefix encoded] t
    by simp
  with r1 have "r1 = Inr True"
    by (auto dest: write_composite_True)
  with depth enc w db' show ?thesis by blast
qed

lemma shared_never_written:
  assumes top: "CYCLES target = None" "saved db = None"
    and v: "val desc = Ref r"
    and nl: "\<not> (PROTOTYPE target = ArrayPrototype \<and> prop = ascii ''length'')"
    and wf: "array_entries_ok h"
    and p: "value_at h (Ref r) p = Some (Ref a)"
    and q: "value_at h (Ref r) q = Some (Ref a)"
    and pq: "p \<noteq> q"
  shows "\<exists>e db'. defineProperty depth rv E h target prop desc db = (Inl e, None, db')
                 \<and> rows db' = rows db \<and> saved db' = None"
proof -
  obtain res c' db' where d: "defineProperty depth rv E h target prop desc db = (res, c', db')"
    by (metis prod_cases3)
  show ?thesis
  proof (cases res)
    case (Inl e)
    with d defineProperty_top_error [OF top, of depth rv E h "prop" desc e c' db']
    show ?thesis by simp
  next
    case (Inr x)
    with d top_composite_success [OF top v nl, of depth rv E h x c' db']
    obtain n encoded c1 db3 db1 where
      w: "write_composite (defineProperty n rv E h) rv h target desc
            (PREFIX target @ [key prop]) encoded r db1 = (Inr True, c1, db3)"
      by blast
    from write_composite_visits [OF defineProperty_visits [OF wf] wf v w] p q pq
    show ?thesis by blast
  qed
qed

subsection \<open>A write that returns has read the entries of the objects it entered only\<close>

lemma followsD:
  assumes "follows h1 h2 self1 self2" and "CYCLES t = Some c"
    and "self1 t k d db = (Inr x, Some cs, db')"
    and "\<forall>u\<in>cs - c. entries (h1 u) = entries (h2 u)"
  shows "self2 t k d db = (Inr x, Some cs, db')"
  using assms(1) [unfolded follows_def, rule_format, OF assms(2,3)] assms(4) by blast

lemma keeps_transactionD:
  assumes "keeps_transaction self" and "CYCLES t = Some c" and "self t k d db = (r, c', db')"
  shows "\<exists>cs. c' = Some cs \<and> c \<subseteq> cs"
  using assms(1) [unfolded keeps_transaction_def, rule_format, OF assms(2,3)] by blast

lemma for_entries_grows:
  assumes step: "\<And>c k v db r c' db'. step (Some c) k v db = (r, c', db') \<Longrightarrow>
                   \<exists>cs. c' = Some cs \<and> c \<subseteq> cs"
    and loop: "for_entries step (Some c) es db = (r, c', db')"
  shows "\<exists>cs. c' = Some cs \<and> c \<subseteq> cs"
proof (rule for_entries_invariant [OF loop, where Q = "\<lambda>c0 d. \<exists>cs. c0 = Some cs \<and> c \<subseteq> cs"])
  show "\<exists>cs. Some c = Some cs \<and> c \<subseteq> cs" by simp
next
  fix c0 k v d r0 c1 d1
  assume "\<exists>cs. c0 = Some cs \<and> c \<subseteq> cs" and s: "step c0 k v d = (r0, c1, d1)"
  then obtain cs0 where cs0: "c0 = Some cs0" "c \<subseteq> cs0" by blast
  from step [OF s [unfolded cs0(1)]] cs0(2)
  show "\<exists>cs. c1 = Some cs \<and> c \<subseteq> cs" by blast
qed

lemma for_entries_follows:
  assumes grows: "\<And>c k v db r c' db'. step1 (Some c) k v db = (r, c', db') \<Longrightarrow>
                    \<exists>cs. c' = Some cs \<and> c \<subseteq> cs"
    and same: "\<And>c k v db x cs db'. step1 (Some c) k v db = (Inr x, Some cs, db') \<Longrightarrow>
                 \<forall>u\<in>cs - c. P u \<Longrightarrow> step2 (Some c) k v db = (Inr x, Some cs, db')"
    and loop: "for_entries step1 (Some c) es db = (Inr x, Some cs, db')"
    and agree: "\<forall>u\<in>cs - c. P u"
  shows "for_entries step2 (Some c) es db = (Inr x, Some cs, db')"
  using loop agree
proof (induction es arbitrary: c db)
  case Nil
  then show ?case by simp
next
  case (Cons kv es)
  obtain k v where kv: "kv = (k, v)" by (cases kv)
  obtain r1 c1 db1 where s: "step1 (Some c) k v db = (r1, c1, db1)"
    by (metis prod_cases3)
  with Cons.prems(1) kv obtain y where r1: "r1 = Inr y"
    and rest: "for_entries step1 c1 es db1 = (Inr x, Some cs, db')"
    by (cases r1) auto
  from grows [OF s] obtain cs1 where cs1: "c1 = Some cs1" "c \<subseteq> cs1" by blast
  from for_entries_grows [of step1, OF grows rest [unfolded cs1(1)]]
  have sub: "cs1 \<subseteq> cs" by simp
  have "\<forall>u\<in>cs1 - c. P u"
    using Cons.prems(2) sub by blast
  from same [OF s [unfolded r1 cs1(1)] this]
  have s2: "step2 (Some c) k v db = (Inr y, Some cs1, db1)" .
  have "\<forall>u\<in>cs - cs1. P u"
    using Cons.prems(2) cs1(2) by blast
  from Cons.IH [OF rest [unfolded cs1(1)] this] s2 kv
  show ?case by simp
qed

lemma write_composite_follows:
  assumes kinds: "\<forall>u. kind (h1 u) = kind (h2 u)"
    and keeps: "keeps_transaction self1"
    and f: "follows h1 h2 self1 self2"
    and v: "val desc = Ref a"
    and w: "write_composite self1 rv h1 target desc prefix encoded a db = (Inr x, Some cs, db')"
    and agree: "\<forall>u\<in>cs. \<not> cycles_has (CYCLES target) u \<longrightarrow> entries (h1 u) = entries (h2 u)"
  shows "write_composite self2 rv h2 target desc prefix encoded a db = (Inr x, Some cs, db')"
proof -
  let ?c1 = "cycles_add (CYCLES target) a"
  define child where
    "child = target\<lparr>PROTOTYPE := (if kind (h1 a) = ArrayType then ArrayPrototype else NullProto),
                    PREFIX := prefix\<rparr>"
  let ?step1 = "\<lambda>c k v. self1 (child\<lparr>CYCLES := c\<rparr>) k (set_descriptor child k v)"
  let ?step2 = "\<lambda>c k v. self2 (child\<lparr>CYCLES := c\<rparr>) k (set_descriptor child k v)"
  have ka: "kind (h2 a) = kind (h1 a)"
    using kinds by simp
  from write_composite_success [OF w] v
  obtain db2 where fresh: "\<not> cycles_has (CYCLES target) a" and valid: "\<not> invalid_descriptor desc"
    and ins: "insert_run db encoded (encodeComplex rv (kind (h1 a))) = Inr db2"
    by (cases "kind (h1 a)") auto
  have ins2: "insert_run db encoded (encodeComplex rv (kind (h2 a))) = Inr db2"
    using ins ka by simp
  have loop1: "for_entries ?step1 (Some ?c1) (entries (h1 a)) db2 = (Inr x, Some cs, db')"
    using write_composite_loop [where h = h1 and self = self1 and prefix = prefix,
        OF fresh valid v ins] w
    by (simp add: child_def)
  have grows: "\<exists>cs. c' = Some cs \<and> c \<subseteq> cs" if "?step1 (Some c) k v d = (r, c', d')"
    for c k v d r c' d'
    using keeps_transactionD [OF keeps _ that] by simp
  from for_entries_grows [of ?step1, OF grows loop1]
  have sub: "?c1 \<subseteq> cs" by simp
  have incl: "cycles_has (CYCLES target) u \<Longrightarrow> u \<in> ?c1" for u
    by (cases "CYCLES target") simp_all
  have "a \<in> ?c1"
    by (cases "CYCLES target") simp_all
  with sub fresh agree have ea: "entries (h1 a) = entries (h2 a)"
    by blast
  have agree1: "\<forall>u\<in>cs - ?c1. entries (h1 u) = entries (h2 u)"
    using agree incl by blast
  have "for_entries ?step2 (Some ?c1) (entries (h1 a)) db2 = (Inr x, Some cs, db')"
  proof (rule for_entries_follows [of ?step1, OF _ _ loop1 agree1])
    fix c k v d r c' d'
    assume "?step1 (Some c) k v d = (r, c', d')"
    then show "\<exists>cs. c' = Some cs \<and> c \<subseteq> cs" by (rule grows)
  next
    fix c k v d y cs0 d'
    assume s: "?step1 (Some c) k v d = (Inr y, Some cs0, d')"
      and a: "\<forall>u\<in>cs0 - c. entries (h1 u) = entries (h2 u)"
    have "CYCLES (child\<lparr>CYCLES := Some c\<rparr>) = Some c" by simp
    from followsD [OF f this s a]
    show "?step2 (Some c) k v d = (Inr y, Some cs0, d')" .
  qed
  then show ?thesis
    using write_composite_loop [where h = h2 and self = self2 and prefix = prefix,
        OF fresh valid v ins2]
    by (simp add: child_def ka ea)
qed

lemma body_without_composite:
  assumes kinds: "\<forall>u. kind (h1 u) = kind (h2 u)"
    and nc: "\<forall>a. val d = Ref a \<longrightarrow> PROTOTYPE t = ArrayPrototype \<and> k = ascii ''length''"
  shows "defineProperty_body self1 rv E h1 t k d db = defineProperty_body self2 rv E h2 t k d db"
proof -
  have tb: "try_block self1 rv E h1 t k d prefix encoded db
          = try_block self2 rv E h2 t k d prefix encoded db" for prefix encoded
    using nc
    by (cases "val d")
       (auto simp add: try_block_def Let_def isArray_cong [OF kinds] isRecord_cong [OF kinds])
  show ?thesis
    by (simp add: defineProperty_body_def Let_def tb split: sum.splits)
qed

lemma defineProperty_body_follows:
  assumes kinds: "\<forall>u. kind (h1 u) = kind (h2 u)"
    and keeps: "keeps_transaction self1"
    and f: "follows h1 h2 self1 self2"
  shows "follows h1 h2 (defineProperty_body self1 rv E h1) (defineProperty_body self2 rv E h2)"
  unfolding follows_def
proof (intro allI impI)
  fix t k d db x cs db' c
  assume c: "CYCLES t = Some c"
    and b: "defineProperty_body self1 rv E h1 t k d db = (Inr x, Some cs, db')"
    and agree: "\<forall>u\<in>cs - c. entries (h1 u) = entries (h2 u)"
  show "defineProperty_body self2 rv E h2 t k d db = (Inr x, Some cs, db')"
  proof (cases "\<forall>a. val d = Ref a \<longrightarrow> PROTOTYPE t = ArrayPrototype \<and> k = ascii ''length''")
    case True
    from body_without_composite [OF kinds True, of self1 rv E db self2] b
    show ?thesis by simp
  next
    case False
    then obtain a where v: "val d = Ref a"
      and nl: "\<not> (PROTOTYPE t = ArrayPrototype \<and> k = ascii ''length'')"
      by blast
    have "val d \<noteq> Undefined" using v by simp
    from body_success_encodes [OF b this]
    obtain encoded where e: "encodePath (PREFIX t @ [key k]) = Inr encoded" by blast
    from nested_body_composite [OF c v nl e, of self1 rv E h1 db] b
    have w: "write_composite self1 rv h1 t d (PREFIX t @ [key k]) encoded a db
               = (Inr x, Some cs, db')"
      by simp
    have "\<forall>u\<in>cs. \<not> cycles_has (CYCLES t) u \<longrightarrow> entries (h1 u) = entries (h2 u)"
      using agree c by simp
    from write_composite_follows [OF kinds keeps f v w this]
    show ?thesis
      using nested_body_composite [OF c v nl e, of self2 rv E h2 db] by simp
  qed
qed

lemma defineProperty_follows:
  assumes kinds: "\<forall>u. kind (h1 u) = kind (h2 u)"
  shows "follows h1 h2 (defineProperty n rv E h1) (defineProperty n rv E h2)"
proof (induction n)
  case 0
  show ?case by (simp add: follows_def)
next
  case (Suc n)
  from defineProperty_body_follows [OF kinds defineProperty_nested Suc]
  show ?case
    by (simp add: follows_def)
qed

lemma nested_scalar_set:
  assumes "CYCLES t = Some c" and "\<forall>a. val d \<noteq> Ref a"
    and "defineProperty n rv E h t k d db = (r, c', db')"
  shows "c' = Some c"
proof (cases n)
  case 0
  with assms show ?thesis by auto
next
  case (Suc m)
  with assms show ?thesis
    by (cases "val d")
       (auto simp add: defineProperty_body_def try_block_def Let_def
          split: if_splits sum.splits prod.splits)
qed

subsection \<open>The graph as far as it is written before a position\<close>

lemma kind_cut_at [simp]: "kind (cut_at h r q u) = kind (h u)"
proof (induction q arbitrary: r)
  case Nil
  show ?case by simp
next
  case (Cons j q)
  show ?case
    by (cases "snd (entries (h r) ! j)") (simp_all add: Cons)
qed

lemma cut_at_self:
  "entries (cut_at h r (j # q) r) =
     take j (entries (h r))
       @ [(fst (entries (h r) ! j), if q = [] then Null else snd (entries (h r) ! j))]"
  by simp

lemma cut_at_last: "u \<noteq> r \<Longrightarrow> cut_at h r [j] u = h u"
  by (cases "snd (entries (h r) ! j)") simp_all

lemma cut_at_other:
  "u \<noteq> r \<Longrightarrow> snd (entries (h r) ! j) = Ref b \<Longrightarrow> cut_at h r (j # q) u = cut_at h b q u"
  by simp

lemma array_entries_ok_cut:
  assumes "array_entries_ok h" and "value_at h (Ref r) q = Some v"
  shows "array_entries_ok (cut_at h r q)"
  using assms(2)
proof (induction q arbitrary: r)
  case Nil
  with assms(1) show ?case by simp
next
  case (Cons j q)
  let ?es = "entries (h r)"
  from Cons.prems have j: "j < length ?es" and rest: "value_at h (snd (?es ! j)) q = Some v"
    by (auto split: if_splits)
  let ?inner = "case snd (?es ! j) of Ref b \<Rightarrow> cut_at h b q | _ \<Rightarrow> h"
  have inner: "array_entries_ok ?inner"
  proof (cases "snd (?es ! j)")
    case (Ref b)
    with rest Cons.IH [of b] show ?thesis by simp
  qed (use assms(1) in simp_all)
  have "fst (?es ! j) \<in> fst ` set ?es"
    using j by (metis nth_mem image_eqI)
  moreover have "fst ` set (take j ?es) \<subseteq> fst ` set ?es"
    by (meson image_mono set_take_subset)
  ultimately have keys: "fst ` set (entries (cut_at h r (j # q) r)) \<subseteq> fst ` set ?es"
    by (auto simp add: cut_at_self simp del: cut_at.simps)
  show ?case
    unfolding array_entries_ok_def
  proof (intro allI impI)
    fix u
    assume k: "kind (cut_at h r (j # q) u) = ArrayType"
    show "ascii ''length'' \<notin> fst ` set (entries (cut_at h r (j # q) u))"
    proof (cases "u = r")
      case True
      from k have "kind (h r) = ArrayType" unfolding True by simp
      with assms(1) have "ascii ''length'' \<notin> fst ` set ?es"
        by (simp add: array_entries_ok_def)
      with keys True show ?thesis by blast
    next
      case False
      then have "cut_at h r (j # q) u = ?inner u" by simp
      moreover have "kind (?inner u) = ArrayType"
        using k False by simp
      ultimately show ?thesis
        using inner by (simp add: array_entries_ok_def)
    qed
  qed
qed

subsection \<open>The second visit\<close>

lemma second_visit_throwsD:
  assumes "second_visit_throws rv E h a n" and "CYCLES t = Some c" and "val d = Ref r"
    and "\<not> (PROTOTYPE t = ArrayPrototype \<and> k = ascii ''length'')"
    and "q \<noteq> []" and "value_at h (Ref r) q = Some (Ref a)"
    and "defineProperty n rv E (cut_at h r q) t k d db = (Inr x, Some cs, db')" and "a \<in> cs"
  shows "(\<exists>cs2 db2. defineProperty n rv E h t k d db = (Inl Cyclic, Some cs2, db2))
         \<and> (\<forall>u\<in>c. entries (cut_at h r q u) = entries (h u))"
  using assms(1) [unfolded second_visit_throws_def, rule_format, OF assms(2-8)] .

lemma for_entries_single:
  assumes "for_entries step c [(k, v)] db = (Inr x, c', db')"
  shows "\<exists>y. step c k v db = (Inr y, c', db')"
  using assms by (auto split: prod.splits sum.splits)

lemma for_entries_stops:
  assumes "for_entries step c xs db = (Inr x, c1, db1)"
    and "step c1 k v db1 = (Inl e, c2, db2)"
  shows "for_entries step c (xs @ (k, v) # ys) db = (Inl e, c2, db2)"
  using assms by (simp add: for_entries_append)

lemma cut_write_composite:
  assumes wf: "array_entries_ok h"
    and ih: "second_visit_throws rv E h a m"
    and v: "val desc = Ref r"
    and q: "value_at h (Ref r) (j # q') = Some (Ref a)"
    and w: "write_composite (defineProperty m rv E (cut_at h r (j # q'))) rv (cut_at h r (j # q'))
              target desc prefix encoded r db1 = (Inr x, Some cs, db')"
    and a: "a \<in> cs"
  shows "(\<exists>cs2 db2. write_composite (defineProperty m rv E h) rv h target desc prefix encoded r db1
                      = (Inl Cyclic, Some cs2, db2))
         \<and> (\<forall>u. cycles_has (CYCLES target) u \<longrightarrow> entries (cut_at h r (j # q') u) = entries (h u))"
proof -
  define h' where "h' = cut_at h r (j # q')"
  let ?es = "entries (h r)"
  let ?c1 = "cycles_add (CYCLES target) r"
  define kj where "kj = fst (?es ! j)"
  define vj where "vj = snd (?es ! j)"
  define vj' where "vj' = (if q' = [] then Null else vj)"
  define child where
    "child = target\<lparr>PROTOTYPE := (if kind (h r) = ArrayType then ArrayPrototype else NullProto),
                    PREFIX := prefix\<rparr>"
  let ?self = "defineProperty m rv E h"
  let ?self' = "defineProperty m rv E h'"
  let ?step = "\<lambda>c k v. ?self (child\<lparr>CYCLES := c\<rparr>) k (set_descriptor child k v)"
  let ?step' = "\<lambda>c k v. ?self' (child\<lparr>CYCLES := c\<rparr>) k (set_descriptor child k v)"
  from q have j: "j < length ?es" and qv: "value_at h vj q' = Some (Ref a)"
    by (auto simp add: vj_def split: if_splits)
  have kinds: "\<forall>u. kind (h' u) = kind (h u)"
    by (simp add: h'_def del: cut_at.simps)
  have er': "entries (h' r) = take j ?es @ [(kj, vj')]"
    unfolding h'_def kj_def vj'_def vj_def by (rule cut_at_self)
  have es: "?es = take j ?es @ (kj, vj) # drop (Suc j) ?es"
    using j by (simp add: kj_def vj_def id_take_nth_drop [symmetric])
  have mem: "(kj, vj) \<in> set ?es"
    using j by (simp add: kj_def vj_def)
  have nl: "\<not> (PROTOTYPE (child\<lparr>CYCLES := cc\<rparr>) = ArrayPrototype \<and> kj = ascii ''length'')" for cc
    using array_entries_ok_key [OF wf mem] by (simp add: child_def)
  text \<open>The write of the part before the position.\<close>
  from write_composite_success [OF w [folded h'_def]] v
  obtain db2 where fresh: "\<not> cycles_has (CYCLES target) r" and valid: "\<not> invalid_descriptor desc"
    and ins': "insert_run db1 encoded (encodeComplex rv (kind (h' r))) = Inr db2"
    by (cases "kind (h' r)") auto
  have ins: "insert_run db1 encoded (encodeComplex rv (kind (h r))) = Inr db2"
    using ins' kinds by simp
  have loop': "for_entries ?step' (Some ?c1) (take j ?es @ [(kj, vj')]) db2 = (Inr x, Some cs, db')"
    using write_composite_loop [where h = h' and self = ?self' and prefix = prefix,
        OF fresh valid v ins'] w [folded h'_def] kinds
    by (simp add: child_def er')
  from for_entries_success_split [OF loop']
  obtain x1 ca dba where part': "for_entries ?step' (Some ?c1) (take j ?es) db2 = (Inr x1, ca, dba)"
    and last0: "for_entries ?step' ca [(kj, vj')] dba = (Inr x, Some cs, db')"
    by blast
  have grows': "\<exists>cs. c' = Some cs \<and> c \<subseteq> cs" if "?step' (Some c) k v d = (r0, c', d')"
    for c k v d r0 c' d'
    using keeps_transactionD [OF defineProperty_nested _ that] by simp
  have "\<exists>cs. ca = Some cs \<and> ?c1 \<subseteq> cs"
  proof (rule for_entries_grows [of ?step', OF _ part'])
    fix c k v d r0 c' d'
    assume "?step' (Some c) k v d = (r0, c', d')"
    then show "\<exists>cs. c' = Some cs \<and> c \<subseteq> cs" by (rule grows')
  qed
  then obtain csa where csa: "ca = Some csa" "?c1 \<subseteq> csa" by blast
  from for_entries_single [OF last0]
  obtain y where last': "?step' (Some csa) kj vj' dba = (Inr y, Some cs, db')"
    unfolding csa(1) by blast
  have r1: "r \<in> ?c1"
    by (cases "CYCLES target") simp_all
  have incl: "cycles_has (CYCLES target) u \<Longrightarrow> u \<in> ?c1" for u
    by (cases "CYCLES target") simp_all
  have f: "follows h' h ?self' ?self"
    using kinds by (rule defineProperty_follows)
  have step_follows: "?step (Some c) k v d = (Inr z, Some cs0, d')"
    if "?step' (Some c) k v d = (Inr z, Some cs0, d')"
      and "\<forall>u\<in>cs0 - c. entries (h' u) = entries (h u)" for c k v d z cs0 d'
  proof -
    have "CYCLES (child\<lparr>CYCLES := Some c\<rparr>) = Some c" by simp
    from followsD [OF f this that] show ?thesis .
  qed
  text \<open>The entry at the position, and what the two heaps share.\<close>
  have "(\<exists>cs2 db2. ?step (Some csa) kj vj dba = (Inl Cyclic, Some cs2, db2))
        \<and> (\<forall>u\<in>csa. u \<noteq> r \<longrightarrow> entries (h' u) = entries (h u))"
  proof (cases "q' = []")
    case True
    with qv have vj: "vj = Ref a" by simp
    have other: "h' u = h u" if "u \<noteq> r" for u
      unfolding h'_def True using that by (rule cut_at_last)
    have null: "vj' = Null"
      using True by (simp add: vj'_def)
    have "cs = csa"
      using nested_scalar_set [OF _ _ last'] null by simp
    moreover have "val (set_descriptor child kj vj') \<noteq> Undefined"
      using null by simp
    from success_encodes [OF last' this]
    obtain m' e where m: "m = Suc m'"
      and e: "encodePath (PREFIX (child\<lparr>CYCLES := Some csa\<rparr>) @ [key kj]) = Inr e"
      by blast
    ultimately have stop: "?step (Some csa) kj vj dba = (Inl Cyclic, Some csa, dba)"
      unfolding m vj
      using a nl e
      by (intro nested_cyclic [where a = a and e = e]) simp_all
    have "\<forall>u\<in>csa. u \<noteq> r \<longrightarrow> entries (h' u) = entries (h u)"
      using other by simp
    with stop show ?thesis
      by (intro conjI exI)
  next
    case False
    with qv obtain b where vj: "vj = Ref b"
      by (cases q'; cases vj) auto
    have vj'': "vj' = Ref b"
      using False vj by (simp add: vj'_def)
    define h'' where "h'' = cut_at h b q'"
    have other: "h' u = h'' u" if "u \<noteq> r" for u
      unfolding h'_def h''_def using that vj by (simp add: vj_def)
    have kinds'': "\<forall>u. kind (h' u) = kind (h'' u)"
      by (simp add: h'_def h''_def del: cut_at.simps)
    have "csa \<subseteq> cs"
      using grows' [OF last'] by simp
    have "\<forall>u\<in>cs - csa. entries (h' u) = entries (h'' u)"
    proof
      fix u
      assume "u \<in> cs - csa"
      then have "u \<noteq> r"
        using csa(2) r1 by blast
      then show "entries (h' u) = entries (h'' u)"
        using other by simp
    qed
    moreover have "CYCLES (child\<lparr>CYCLES := Some csa\<rparr>) = Some csa" by simp
    ultimately have run'': "defineProperty m rv E h'' (child\<lparr>CYCLES := Some csa\<rparr>) kj
                              (set_descriptor child kj (Ref b)) dba = (Inr y, Some cs, db')"
      using followsD [OF defineProperty_follows [OF kinds'', of m rv E] _ last' [unfolded vj'']]
      by blast
    have "(\<exists>cs2 db2. ?step (Some csa) kj (Ref b) dba = (Inl Cyclic, Some cs2, db2))
          \<and> (\<forall>u\<in>csa. entries (h'' u) = entries (h u))"
      unfolding h''_def
      by (rule second_visit_throwsD [OF ih _ _ nl False _ run'' [unfolded h''_def] a])
         (use qv vj in simp_all)
    then obtain cs2 dbe where stop: "?step (Some csa) kj vj dba = (Inl Cyclic, Some cs2, dbe)"
      and sh: "\<forall>u\<in>csa. entries (h'' u) = entries (h u)"
      unfolding vj by (elim conjE exE)
    have "\<forall>u\<in>csa. u \<noteq> r \<longrightarrow> entries (h' u) = entries (h u)"
      using other sh by simp
    with stop show ?thesis
      by (intro conjI exI)
  qed
  then obtain cs2 dbe where stop: "?step (Some csa) kj vj dba = (Inl Cyclic, Some cs2, dbe)"
    and shared: "\<forall>u\<in>csa. u \<noteq> r \<longrightarrow> entries (h' u) = entries (h u)"
    by blast
  text \<open>The same entries under the whole graph.\<close>
  have agree: "\<forall>u\<in>csa - ?c1. entries (h' u) = entries (h u)"
  proof
    fix u
    assume u: "u \<in> csa - ?c1"
    with r1 have "u \<noteq> r" by auto
    with u shared show "entries (h' u) = entries (h u)" by simp
  qed
  have part: "for_entries ?step (Some ?c1) (take j ?es) db2 = (Inr x1, Some csa, dba)"
  proof (rule for_entries_follows [of ?step', OF _ _ part' [unfolded csa(1)] agree])
    fix c k v d r0 c' d'
    assume "?step' (Some c) k v d = (r0, c', d')"
    then show "\<exists>cs. c' = Some cs \<and> c \<subseteq> cs" by (rule grows')
  next
    fix c k v d z cs0 d'
    assume "?step' (Some c) k v d = (Inr z, Some cs0, d')"
      and "\<forall>u\<in>cs0 - c. entries (h' u) = entries (h u)"
    then show "?step (Some c) k v d = (Inr z, Some cs0, d')" by (rule step_follows)
  qed
  have "for_entries ?step (Some ?c1) ?es db2 = (Inl Cyclic, Some cs2, dbe)"
    by (subst es) (rule for_entries_stops [OF part stop])
  then have "write_composite ?self rv h target desc prefix encoded r db1
               = (Inl Cyclic, Some cs2, dbe)"
    using write_composite_loop [where h = h and self = ?self and prefix = prefix,
        OF fresh valid v ins]
    by (simp add: child_def)
  moreover have "\<forall>u. cycles_has (CYCLES target) u \<longrightarrow> entries (h' u) = entries (h u)"
  proof (intro allI impI)
    fix u
    assume u: "cycles_has (CYCLES target) u"
    with fresh have "u \<noteq> r" by auto
    moreover from u have "u \<in> csa"
      using incl csa(2) by (simp add: subset_iff)
    ultimately show "entries (h' u) = entries (h u)"
      using shared by simp
  qed
  ultimately show ?thesis
    unfolding h'_def by (intro conjI exI)
qed

lemma defineProperty_second_visit:
  assumes wf: "array_entries_ok h"
  shows "second_visit_throws rv E h a n"
proof (induction n)
  case 0
  show ?case by (simp add: second_visit_throws_def)
next
  case (Suc m)
  show ?case
    unfolding second_visit_throws_def
  proof (intro allI impI)
    fix t :: inner and c k d r q db x cs db'
    assume c: "CYCLES t = Some c" and v: "val d = Ref r"
      and nl: "\<not> (PROTOTYPE t = ArrayPrototype \<and> k = ascii ''length'')"
      and q: "q \<noteq> []" "value_at h (Ref r) q = Some (Ref a)"
      and run: "defineProperty (Suc m) rv E (cut_at h r q) t k d db = (Inr x, Some cs, db')"
      and a: "a \<in> cs"
    from q(1) obtain j q' where jq: "q = j # q'" by (cases q) auto
    have nu: "val d \<noteq> Undefined" using v by simp
    from success_encodes [OF run nu]
    obtain encoded where e: "encodePath (PREFIX t @ [key k]) = Inr encoded" by blast
    from run nested_body_composite [OF c v nl e]
    have w: "write_composite (defineProperty m rv E (cut_at h r (j # q'))) rv (cut_at h r (j # q'))
               t d (PREFIX t @ [key k]) encoded r db = (Inr x, Some cs, db')"
      by (simp add: jq)
    from cut_write_composite [OF wf Suc v q(2) [unfolded jq] w a]
    show "(\<exists>cs2 db2. defineProperty (Suc m) rv E h t k d db = (Inl Cyclic, Some cs2, db2))
          \<and> (\<forall>u\<in>c. entries (cut_at h r q u) = entries (h u))"
      using nested_body_composite [OF c v nl e] c
      by (simp add: jq)
  qed
qed

subsection \<open>The outermost call\<close>

lemma shared_is_cyclic:
  assumes top: "CYCLES target = None" "saved db = None"
    and v: "val desc = Ref r"
    and nl: "\<not> (PROTOTYPE target = ArrayPrototype \<and> prop = ascii ''length'')"
    and wf: "array_entries_ok h"
    and q: "value_at h (Ref r) q = Some (Ref a)"
    and pq: "p \<noteq> q"
    and p: "value_at (cut_at h r q) (Ref r) p = Some (Ref a)"
    and ok: "defineProperty depth rv E (cut_at h r q) target prop desc db = (Inr x, c, dbt)"
  shows "\<exists>db'. defineProperty depth rv E h target prop desc db = (Inl Cyclic, None, db')
               \<and> rows db' = rows db \<and> saved db' = None"
proof (cases q)
  case Nil
  have "\<exists>e db'. defineProperty depth rv E h target prop desc db = (Inl e, None, db')
                 \<and> rows db' = rows db \<and> saved db' = None"
    using top v nl wf p [unfolded Nil cut_at.simps] q pq
    by (rule shared_never_written)
  with ok show ?thesis
    unfolding Nil by simp
next
  case (Cons j q')
  define h' where "h' = cut_at h r q"
  have wf': "array_entries_ok h'"
    unfolding h'_def using wf q by (rule array_entries_ok_cut)
  from top_composite_success [OF top v nl ok [folded h'_def]]
  obtain n encoded c1 db3 where depth: "depth = Suc n"
    and enc: "encodePath (PREFIX target @ [key prop]) = Inr encoded"
    and w': "write_composite (defineProperty n rv E h') rv h' target desc
               (PREFIX target @ [key prop]) encoded r
               (fst (delete_run (db\<lparr>saved := Some (rows db)\<rparr>) encoded (increment rv encoded)))
             = (Inr True, c1, db3)"
    by blast
  let ?self = "defineProperty n rv E h"
  let ?prefix = "PREFIX target @ [key prop]"
  let ?db1 = "fst (delete_run (db\<lparr>saved := Some (rows db)\<rparr>) encoded (increment rv encoded))"
  from write_composite_visits [OF defineProperty_visits [OF wf'] wf' v w'] p [folded h'_def]
  obtain cs where cs: "c1 = Some cs" and a: "a \<in> cs"
    by blast
  from cut_write_composite [OF wf defineProperty_second_visit [OF wf] v q [unfolded Cons]
      w' [unfolded h'_def Cons cs] a]
  obtain cs2 db2 where w: "write_composite ?self rv h target desc ?prefix encoded r ?db1
                             = (Inl Cyclic, Some cs2, db2)"
    by blast
  have t: "try_block ?self rv E h target prop desc ?prefix encoded db = (Inl Cyclic, Some cs2, db2)"
    using try_block_top_composite [OF top v nl] w by simp
  have s: "saved db2 = Some (rows db)"
    using try_block_top [OF defineProperty_nested top t] .
  have nu: "val desc \<noteq> Undefined" using v by simp
  from defineProperty_body_top [OF top(1) nu enc t s]
  have "defineProperty depth rv E h target prop desc db
          = (Inl Cyclic, None, db2\<lparr>rows := rows db, saved := None\<rparr>)"
    by (simp add: depth)
  then show ?thesis by simp
qed

text \<open>
  C9, amended. Let a top-level write have a composite source value \<open>r\<close> in which the
  composite \<open>a\<close> is found at the position \<open>q\<close> and at another position \<open>p\<close>. Then the write
  does not return: it throws, and the rows of the table are as before, with no transaction
  left open. If \<open>a\<close> is at \<open>p\<close> in what is written before \<open>q\<close>, and the write of that part of
  the graph (with \<^verbatim>\<open>null\<close> in the place of \<open>q\<close>) succeeds, then the error is
  \<^verbatim>\<open>ReferenceError("Cyclic object")\<close>, although \<open>a\<close> need not contain itself: the first visit
  added \<open>a\<close> to the \<^verbatim>\<open>WeakSet\<close>, and nothing removes it. The positions are arbitrary: under
  two keys of one object, at any depth, or under different parents.
\<close>

theorem C9_shared_object_fails:
  assumes "CYCLES target = None" and "saved db = None"
    and "val desc = Ref r"
    and "\<not> (PROTOTYPE target = ArrayPrototype \<and> prop = ascii ''length'')"
    and "array_entries_ok h"
    and "value_at h (Ref r) q = Some (Ref a)"
    and "p \<noteq> q"
  shows "(value_at h (Ref r) p = Some (Ref a) \<longrightarrow>
            (\<exists>e db'. defineProperty depth rv E h target prop desc db = (Inl e, None, db')
                      \<and> rows db' = rows db \<and> saved db' = None))
         \<and> (value_at (cut_at h r q) (Ref r) p = Some (Ref a)
              \<and> defineProperty depth rv E (cut_at h r q) target prop desc db = (Inr True, c, dbt) \<longrightarrow>
            (\<exists>db'. defineProperty depth rv E h target prop desc db = (Inl Cyclic, None, db')
                    \<and> rows db' = rows db \<and> saved db' = None))"
proof (intro conjI impI)
  assume "value_at h (Ref r) p = Some (Ref a)"
  with assms show "\<exists>e db'. defineProperty depth rv E h target prop desc db = (Inl e, None, db')
                          \<and> rows db' = rows db \<and> saved db' = None"
    by (intro shared_never_written [where p = p and q = q and a = a and r = r]) simp_all
next
  assume b: "value_at (cut_at h r q) (Ref r) p = Some (Ref a)
             \<and> defineProperty depth rv E (cut_at h r q) target prop desc db = (Inr True, c, dbt)"
  show "\<exists>db'. defineProperty depth rv E h target prop desc db = (Inl Cyclic, None, db')
              \<and> rows db' = rows db \<and> saved db' = None"
    using assms(1-7) conjunct1 [OF b] conjunct2 [OF b]
    by (rule shared_is_cyclic)
qed

theorem C9_shared_object_fails_witness:
  "CYCLES \<lparr>PROTOTYPE = NullProto, PREFIX = [], CYCLES = None\<rparr> = None
   \<and> saved \<lparr>rows = [], saved = None\<rparr> = None
   \<and> value_at shared_below (Ref 0) [1, 0] = Some (Ref 3)
   \<and> value_at shared_below (Ref 0) [0, 0] = Some (Ref 3)
   \<and> value_at (cut_at shared_below 0 [1, 0]) (Ref 0) [0, 0] = Some (Ref 3)
   \<and> value_at (cut_at shared_below 0 [1, 0]) (Ref 0) [1, 0] = Some Null
   \<and> defineProperty (Suc (Suc (Suc (Suc 0)))) ProxyTs example_engine (cut_at shared_below 0 [1, 0])
         \<lparr>PROTOTYPE = NullProto, PREFIX = [], CYCLES = None\<rparr> (ascii ''k'')
         \<lparr>enumerable = Some True, configurable = Some True, writable = Some True, val = Ref 0\<rparr>
         \<lparr>rows = [], saved = None\<rparr>
       = (Inr True, None,
          \<lparr>rows = [([1, 0, 0x6b, 0xff, 0xfe], [0xfe]),
                   ([1, 0, 0x6b, 0xff, 0xfe, 1, 0, 0x78, 0xff, 0xfe], [0xfe]),
                   ([1, 0, 0x6b, 0xff, 0xfe, 1, 0, 0x78, 0xff, 0xfe, 1, 0, 0x70, 0xff, 0xfe], [0xfe]),
                   ([1, 0, 0x6b, 0xff, 0xfe, 1, 0, 0x78, 0xff, 0xfe, 1, 0, 0x70, 0xff, 0xfe,
                     1, 0, 0x6e, 0xff, 0xfe], [0]),
                   ([1, 0, 0x6b, 0xff, 0xfe, 1, 0, 0x79, 0xff, 0xfe], [0xfe]),
                   ([1, 0, 0x6b, 0xff, 0xfe, 1, 0, 0x79, 0xff, 0xfe, 1, 0, 0x71, 0xff, 0xfe], [0])],
            saved = None\<rparr>)
   \<and> (\<exists>db'. defineProperty (Suc (Suc (Suc (Suc 0)))) ProxyTs example_engine shared_below
               \<lparr>PROTOTYPE = NullProto, PREFIX = [], CYCLES = None\<rparr> (ascii ''k'')
               \<lparr>enumerable = Some True, configurable = Some True, writable = Some True, val = Ref 0\<rparr>
               \<lparr>rows = [], saved = None\<rparr>
             = (Inl Cyclic, None, db') \<and> rows db' = [] \<and> saved db' = None)"
proof -
  let ?t = "\<lparr>PROTOTYPE = NullProto, PREFIX = [], CYCLES = None\<rparr>"
  let ?db = "\<lparr>rows = [], saved = None\<rparr>"
  let ?d = "\<lparr>enumerable = Some True, configurable = Some True, writable = Some True, val = Ref 0\<rparr>"
  let ?n = "Suc (Suc (Suc (Suc 0)))"
  let ?dbt = "\<lparr>rows = [([1, 0, 0x6b, 0xff, 0xfe], [0xfe]),
                   ([1, 0, 0x6b, 0xff, 0xfe, 1, 0, 0x78, 0xff, 0xfe], [0xfe]),
                   ([1, 0, 0x6b, 0xff, 0xfe, 1, 0, 0x78, 0xff, 0xfe, 1, 0, 0x70, 0xff, 0xfe], [0xfe]),
                   ([1, 0, 0x6b, 0xff, 0xfe, 1, 0, 0x78, 0xff, 0xfe, 1, 0, 0x70, 0xff, 0xfe,
                     1, 0, 0x6e, 0xff, 0xfe], [0]),
                   ([1, 0, 0x6b, 0xff, 0xfe, 1, 0, 0x79, 0xff, 0xfe], [0xfe]),
                   ([1, 0, 0x6b, 0xff, 0xfe, 1, 0, 0x79, 0xff, 0xfe, 1, 0, 0x71, 0xff, 0xfe], [0])],
               saved = None\<rparr>"
  have k: "key (ascii ''k'') = Str (ascii ''k'')" "key (ascii ''x'') = Str (ascii ''x'')"
    "key (ascii ''y'') = Str (ascii ''y'')" "key (ascii ''n'') = Str (ascii ''n'')"
    "key (ascii ''p'') = Str (ascii ''p'')" "key (ascii ''q'') = Str (ascii ''q'')"
    by (simp_all add: key_def number_defs)
  have l: "ascii ''k'' \<noteq> ascii ''length''" "ascii ''x'' \<noteq> ascii ''length''"
    "ascii ''y'' \<noteq> ascii ''length''" "ascii ''n'' \<noteq> ascii ''length''"
    "ascii ''p'' \<noteq> ascii ''length''" "ascii ''q'' \<noteq> ascii ''length''"
    by (simp_all add: ascii_def)
  have e: "encodePath [Str (ascii ''k'')] = Inr [1, 0, 0x6b, 0xff, 0xfe]"
    "encodePath [Str (ascii ''k''), Str (ascii ''x'')]
       = Inr [1, 0, 0x6b, 0xff, 0xfe, 1, 0, 0x78, 0xff, 0xfe]"
    "encodePath [Str (ascii ''k''), Str (ascii ''y'')]
       = Inr [1, 0, 0x6b, 0xff, 0xfe, 1, 0, 0x79, 0xff, 0xfe]"
    "encodePath [Str (ascii ''k''), Str (ascii ''x''), Str (ascii ''p'')]
       = Inr [1, 0, 0x6b, 0xff, 0xfe, 1, 0, 0x78, 0xff, 0xfe, 1, 0, 0x70, 0xff, 0xfe]"
    "encodePath [Str (ascii ''k''), Str (ascii ''x''), Str (ascii ''p''), Str (ascii ''n'')]
       = Inr [1, 0, 0x6b, 0xff, 0xfe, 1, 0, 0x78, 0xff, 0xfe, 1, 0, 0x70, 0xff, 0xfe,
              1, 0, 0x6e, 0xff, 0xfe]"
    "encodePath [Str (ascii ''k''), Str (ascii ''y''), Str (ascii ''q'')]
       = Inr [1, 0, 0x6b, 0xff, 0xfe, 1, 0, 0x79, 0xff, 0xfe, 1, 0, 0x71, 0xff, 0xfe]"
    by (simp_all add: encodePath_def ascii_def byte_defs)
  define hc where "hc = cut_at shared_below 0 [1, 0]"
  have c0: "hc 0 = \<lparr>kind = RecordType, entries = [(ascii ''x'', Ref 1), (ascii ''y'', Ref 2)]\<rparr>"
    and c1: "hc (Suc 0) = \<lparr>kind = RecordType, entries = [(ascii ''p'', Ref 3)]\<rparr>"
    and c2: "hc 2 = \<lparr>kind = RecordType, entries = [(ascii ''q'', Null)]\<rparr>"
    and c3: "hc 3 = \<lparr>kind = RecordType, entries = [(ascii ''n'', Null)]\<rparr>"
    by (simp_all add: hc_def shared_below_def)
  have h1: "CYCLES ?t = None" and h2: "saved ?db = None" and h3: "val ?d = Ref 0"
    and h4: "\<not> (PROTOTYPE ?t = ArrayPrototype \<and> ascii ''k'' = ascii ''length'')"
    by simp_all
  have h5: "array_entries_ok shared_below"
    by (simp add: array_entries_ok_def shared_below_def)
  have h6: "value_at shared_below (Ref 0) [1, 0] = Some (Ref 3)"
    and p0: "value_at shared_below (Ref 0) [0, 0] = Some (Ref 3)"
    by (simp_all add: shared_below_def)
  have h7: "[0, 0] \<noteq> [1, 0 :: nat]"
    by simp
  have p1: "value_at hc (Ref 0) [0, 0] = Some (Ref 3)"
    and p2: "value_at hc (Ref 0) [1, 0] = Some Null"
    by (simp_all add: c0 c1 c2)
  have ev: "defineProperty ?n ProxyTs example_engine hc ?t (ascii ''k'') ?d ?db
              = (Inr True, None, ?dbt)"
    by (simp add: c0 c1 c2 c3 set_descriptor_def defineProperty_body_def try_block_def
        write_composite_def write_scalar_def Let_def k l e delete_run_def in_range_def blob_le_def
        invalid_descriptor_def insert_run_def selectOne_def tag_defs cycles_has_def cycles_add_def)
  from C9_shared_object_fails [OF h1 h2 h3 h4 h5 h6 h7, of ?n ProxyTs example_engine None ?dbt]
    p1 [unfolded hc_def] ev [unfolded hc_def]
  have "\<exists>db'. defineProperty ?n ProxyTs example_engine shared_below ?t (ascii ''k'') ?d ?db
                 = (Inl Cyclic, None, db') \<and> rows db' = rows ?db \<and> saved db' = None"
    by blast
  then have "\<exists>db'. defineProperty ?n ProxyTs example_engine shared_below ?t (ascii ''k'') ?d ?db
                 = (Inl Cyclic, None, db') \<and> rows db' = [] \<and> saved db' = None"
    by simp
  with h1 h2 h6 p0 p1 [unfolded hc_def] p2 [unfolded hc_def] ev [unfolded hc_def]
  show ?thesis
    by (intro conjI)
qed

text \<open>
  C9, as stated, fails where another error is raised before the second visit:
  in \<^verbatim>\<open>{x: a, y: a}\<close> let the one key of \<^verbatim>\<open>a\<close> be the code unit \<open>0xFFFF\<close>. The first visit
  of \<open>a\<close> throws \<^verbatim>\<open>RangeError("Invalid UTF-16 code unit")\<close> from \<^verbatim>\<open>encodePath\<close>, and that is
  the error of the write, not \<^verbatim>\<open>ReferenceError("Cyclic object")\<close>.
\<close>

theorem C9_counterexample:
  "value_at shared_invalid (Ref 0) [0] = Some (Ref 1)
   \<and> value_at shared_invalid (Ref 0) [1] = Some (Ref 1)
   \<and> defineProperty (Suc (Suc (Suc 0))) ProxyTs example_engine shared_invalid
         \<lparr>PROTOTYPE = NullProto, PREFIX = [], CYCLES = None\<rparr> (ascii ''k'')
         \<lparr>enumerable = Some True, configurable = Some True, writable = Some True, val = Ref 0\<rparr>
         \<lparr>rows = [], saved = None\<rparr>
       = (Inl InvalidCodeUnit, None, \<lparr>rows = [], saved = None\<rparr>)"
proof -
  have k: "key (ascii ''k'') = Str (ascii ''k'')" "key (ascii ''x'') = Str (ascii ''x'')"
    "key [0xffff] = Str [0xffff]"
    by (simp_all add: key_def number_defs)
  have l: "ascii ''k'' \<noteq> ascii ''length''" "ascii ''x'' \<noteq> ascii ''length''"
    by (simp_all add: ascii_def)
  have e: "encodePath [Str (ascii ''k'')] = Inr [1, 0, 0x6b, 0xff, 0xfe]"
    "encodePath [Str (ascii ''k''), Str (ascii ''x'')]
       = Inr [1, 0, 0x6b, 0xff, 0xfe, 1, 0, 0x78, 0xff, 0xfe]"
    "encodePath [Str (ascii ''k''), Str (ascii ''x''), Str [0xffff]] = Inl InvalidCodeUnit"
    by (simp_all add: encodePath_def ascii_def byte_defs)
  show ?thesis
    by (simp add: shared_invalid_def set_descriptor_def defineProperty_body_def try_block_def
        write_composite_def write_scalar_def Let_def k l e delete_run_def in_range_def blob_le_def
        invalid_descriptor_def insert_run_def selectOne_def tag_defs cycles_has_def cycles_add_def)
qed

section \<open>The length of an array\<close>

subsection \<open>The query for the length of an array\<close>

lemma blob_le_Cons: "blob_le (a # as) (b # bs) = (a < b \<or> (a = b \<and> blob_le as bs))"
  by (auto simp add: blob_le_def)

lemma blob_le_Nil [simp]: "blob_le [] x"
  by (cases x) (auto simp add: blob_le_def)

lemma blob_le_Cons_Nil [simp]: "\<not> blob_le (a # as) []"
  by (simp add: blob_le_def)

lemma blob_le_append_same [simp]: "blob_le (e @ xs) (e @ ys) = blob_le xs ys"
  by (simp add: blob_le_def)

lemma between_prefix:
  "blob_le (e @ u) x \<Longrightarrow> blob_less x (e @ v) \<Longrightarrow> \<exists>w. x = e @ w \<and> blob_le u w \<and> blob_less w v"
proof (induction e arbitrary: x)
  case Nil
  then show ?case by simp
next
  case (Cons b e)
  show ?case
  proof (cases x)
    case Nil
    with Cons.prems show ?thesis by simp
  next
    case (Cons y x')
    with Cons.prems have "y = b" and "blob_le (e @ u) x'" and "blob_less x' (e @ v)"
      by (auto simp add: blob_le_Cons)
    with Cons.IH [of x'] Cons show ?thesis by auto
  qed
qed

lemma greatest_None [simp]: "(greatest ps = None) = (ps = [])"
  by (induction ps) (auto split: option.splits)

lemma greatest_Some:
  "greatest ps = Some p \<Longrightarrow> p \<in> set ps \<and> (\<forall>q \<in> set ps. \<not> blob_less p q)"
proof (induction ps arbitrary: p)
  case Nil
  then show ?case by simp
next
  case (Cons x ps)
  show ?case
  proof (cases "greatest ps")
    case None
    with Cons.prems show ?thesis by simp
  next
    case (Some q)
    from Cons.IH [OF Some] have q: "q \<in> set ps" "\<forall>z \<in> set ps. \<not> blob_less q z"
      by auto
    show ?thesis
    proof (cases "blob_less x q")
      case True
      with Some Cons.prems q show ?thesis
        using blob_less_asym by auto
    next
      case False
      have "\<not> blob_less x z" if "z \<in> set ps" for z
      proof
        assume xz: "blob_less x z"
        from q that have "\<not> blob_less q z" by blast
        then have "z = q \<or> blob_less z q"
          using blob_less_total [of q z] by auto
        with xz False show False
          using blob_less_trans by blast
      qed
      with False Some Cons.prems show ?thesis by auto
    qed
  qed
qed

lemma four_bytes: "length bs = 4 \<Longrightarrow> bs = setUint32 (be_value bs)"
  using be_bytes_be_value [of bs] by (simp add: setUint32_def)

lemma be_value_max: "be_value (setUint32 0xffffffff) = 2 ^ 32 - 1"
  by (simp add: be_value_setUint32)

text \<open>
  The paths of the length of \<open>lower\<close> between \<open>encode(P ++ [0])\<close> and
  \<open>encode(P ++ [0xffffffff])\<close> are the encoded paths \<open>P ++ [k]\<close> with \<open>k < 2 ^ 32 - 1\<close>.
\<close>

lemma numeric_child_range:
  "(length x = length (e @ 0 # setUint32 0)
    \<and> in_range (e @ 0 # setUint32 0) (e @ 0 # setUint32 0xffffffff) x)
   = (\<exists>k < 2 ^ 32 - 1. x = e @ 0 # setUint32 k)"
proof
  assume a: "length x = length (e @ 0 # setUint32 0)
             \<and> in_range (e @ 0 # setUint32 0) (e @ 0 # setUint32 0xffffffff) x"
  then obtain w where w: "x = e @ w" "blob_le (0 # setUint32 0) w"
    "blob_less w (0 # setUint32 0xffffffff)"
    using between_prefix [of e "0 # setUint32 0" x "0 # setUint32 0xffffffff"]
    by (auto simp add: in_range_def)
  with a have "length w = 5" by simp
  then obtain t bs where tb: "w = t # bs" "length bs = 4"
    by (cases w) auto
  with w(3) have t: "t = 0" and lt: "blob_less bs (setUint32 0xffffffff)"
    by auto
  from lt tb have "be_value bs < 2 ^ 32 - 1"
    by (simp add: blob_less_be_value be_value_max)
  moreover have "x = e @ 0 # setUint32 (be_value bs)"
    using w(1) tb t four_bytes [of bs] by simp
  ultimately show "\<exists>k < 2 ^ 32 - 1. x = e @ 0 # setUint32 k"
    by blast
next
  assume "\<exists>k < 2 ^ 32 - 1. x = e @ 0 # setUint32 k"
  then obtain k :: nat where k: "k < 2 ^ 32 - 1" "x = e @ 0 # setUint32 k"
    by blast
  then have k32: "k < 2 ^ 32" by simp
  have "blob_le (setUint32 0) (setUint32 k)"
    using k32 by (cases "k = 0") (simp_all add: blob_le_def blob_less_setUint32)
  moreover have "blob_less (setUint32 k) (setUint32 0xffffffff)"
    using k k32 by (simp add: blob_less_setUint32)
  ultimately show "length x = length (e @ 0 # setUint32 0)
                   \<and> in_range (e @ 0 # setUint32 0) (e @ 0 # setUint32 0xffffffff) x"
    using k by (simp add: in_range_def blob_le_Cons)
qed

lemma path_bytes_numeric_child: "path_bytes (p @ [Num k]) = path_bytes p @ 0 # setUint32 k"
  by simp

lemma encode_numeric_child:
  assumes "encodePath (p @ [Num 0]) = Inr lower" and "list_all valid_segment p" and "k < 2 ^ 32"
  shows "encodePath (p @ [Num k]) = Inr (path_bytes (p @ [Num k]))"
proof -
  have "lower = path_bytes (p @ [Num 0])"
    using assms(1) by (rule encodePath_Inr)
  moreover have "length lower \<le> 65535"
    using assms(1) encodePath_loop_length [of "[]" "p @ [Num 0]" lower]
    by (simp add: encodePath_def)
  ultimately have "length (path_bytes (p @ [Num k])) \<le> 65535"
    by simp
  then show ?thesis
    using assms(2,3) by (intro encodePath_ok) simp_all
qed

lemma length_get_children:
  assumes "encodePath (p @ [Num 0]) = Inr lower"
    and "encodePath (p @ [Num 0xffffffff]) = Inr upper"
  shows "set (map fst (filter (\<lambda>r. length (fst r) = length lower \<and> in_range lower upper (fst r))
                          (rows db)))
         = {x. \<exists>k < 2 ^ 32 - 1. x = path_bytes (p @ [Num k]) \<and> selectOne db x \<noteq> None}"
proof -
  have l: "lower = path_bytes p @ 0 # setUint32 0"
    and u: "upper = path_bytes p @ 0 # setUint32 0xffffffff"
    using assms by (auto dest: encodePath_Inr)
  let ?P = "\<lambda>x. length x = length lower \<and> in_range lower upper x"
  have range: "?P x = (\<exists>k < 2 ^ 32 - 1. x = path_bytes (p @ [Num k]))" for x
    unfolding l u path_bytes_numeric_child by (rule numeric_child_range)
  have "set (map fst (filter (\<lambda>r. ?P (fst r)) (rows db))) = {x \<in> fst ` set (rows db). ?P x}"
    by (simp only: set_map set_filter) blast
  also have "\<dots> = {x. \<exists>k < 2 ^ 32 - 1. x = path_bytes (p @ [Num k]) \<and> selectOne db x \<noteq> None}"
    by (simp only: range selectOne_iff) blast
  finally show ?thesis .
qed

lemma child_row_iff:
  assumes "encodePath (p @ [Num 0]) = Inr lower" and "list_all valid_segment p" and "k < 2 ^ 32"
  shows "child_row db p k = (selectOne db (path_bytes (p @ [Num k])) \<noteq> None)"
  using encode_numeric_child [OF assms] by (simp add: child_row_def)

lemma numeric_child_less:
  "j < 2 ^ 32 \<Longrightarrow> k < 2 ^ 32 \<Longrightarrow>
     blob_less (path_bytes (p @ [Num k])) (path_bytes (p @ [Num j])) = (k < j)"
  by (simp add: blob_less_setUint32)

text \<open>
  C5: on an array handle whose prefix \<open>P\<close> encodes, the query of the length statement
  finds no row exactly if no row is stored at any \<open>P ++ [k]\<close>; a row it finds is at the
  encoded path \<open>P ++ [k]\<close> of a stored numeric child, with \<open>k\<close> the greatest such index
  (so it is never a string-keyed child or a deeper descendant); and if the numeric
  children are exactly the indices below \<open>n\<close>, reading \<^verbatim>\<open>length\<close> gives \<open>n\<close>.
\<close>

theorem C5_array_length:
  assumes arr: "PROTOTYPE target = ArrayPrototype"
    and valid: "list_all valid_segment (PREFIX target)"
    and lo: "encodePath (PREFIX target @ [Num 0]) = Inr lower"
    and up: "encodePath (PREFIX target @ [Num 0xffffffff]) = Inr upper"
  shows "((length_get db lower upper = None) = (\<forall>k < 2 ^ 32 - 1. \<not> child_row db (PREFIX target) k))
    \<and> (\<forall>x. length_get db lower upper = Some x \<longrightarrow>
          (\<exists>k < 2 ^ 32 - 1. encodePath (PREFIX target @ [Num k]) = Inr x
              \<and> child_row db (PREFIX target) k
              \<and> (\<forall>j < 2 ^ 32 - 1. child_row db (PREFIX target) j \<longrightarrow> j \<le> k)))
    \<and> (\<forall>n \<le> 2 ^ 32 - 1.
          (\<forall>k < 2 ^ 32 - 1. child_row db (PREFIX target) k = (k < n)) \<longrightarrow>
          get rv E target (ascii ''length'') db = Inr (Integer n))"
proof -
  let ?P = "PREFIX target"
  let ?rows = "map fst (filter (\<lambda>r. length (fst r) = length lower \<and> in_range lower upper (fst r))
                           (rows db))"
  have cr: "child_row db ?P k = (selectOne db (path_bytes (?P @ [Num k])) \<noteq> None)"
    if "k < 2 ^ 32 - 1" for k
    using that by (intro child_row_iff [OF lo valid]) simp
  have children: "set ?rows = {x. \<exists>k < 2 ^ 32 - 1. x = path_bytes (?P @ [Num k]) \<and> child_row db ?P k}"
    using length_get_children [OF lo up, of db] cr by auto
  have none: "(length_get db lower upper = None) = (\<forall>k < 2 ^ 32 - 1. \<not> child_row db ?P k)"
  proof -
    have "(length_get db lower upper = None) = (set ?rows = {})"
      by (simp only: length_get_def greatest_None set_empty)
    also have "\<dots> = (\<forall>k < 2 ^ 32 - 1. \<not> child_row db ?P k)"
      unfolding children by blast
    finally show ?thesis .
  qed
  have some: "\<exists>k < 2 ^ 32 - 1. x = path_bytes (?P @ [Num k]) \<and> encodePath (?P @ [Num k]) = Inr x
                \<and> child_row db ?P k
                \<and> (\<forall>j < 2 ^ 32 - 1. child_row db ?P j \<longrightarrow> j \<le> k)"
    if x: "length_get db lower upper = Some x" for x
  proof -
    from x have g: "x \<in> set ?rows" "\<forall>q \<in> set ?rows. \<not> blob_less x q"
      using greatest_Some [of ?rows x] by (simp_all add: length_get_def)
    from g(1) obtain k where k: "k < 2 ^ 32 - 1" "x = path_bytes (?P @ [Num k])"
      "child_row db ?P k"
      unfolding children by blast
    have e: "encodePath (?P @ [Num k]) = Inr x"
      using encode_numeric_child [OF lo valid, of k] k by simp
    have "j \<le> k" if j: "j < 2 ^ 32 - 1" "child_row db ?P j" for j
    proof -
      from j have "path_bytes (?P @ [Num j]) \<in> set ?rows"
        unfolding children by blast
      with g(2) k(2) have "\<not> blob_less (path_bytes (?P @ [Num k])) (path_bytes (?P @ [Num j]))"
        by blast
      moreover have "j < 2 ^ 32" "k < 2 ^ 32"
        using j(1) k(1) by simp_all
      ultimately show ?thesis
        by (simp only: numeric_child_less)
    qed
    with k e show ?thesis by blast
  qed
  have len: "get rv E target (ascii ''length'') db = Inr (Integer n)"
    if n: "n \<le> 2 ^ 32 - 1" and dense: "\<forall>k < 2 ^ 32 - 1. child_row db ?P k = (k < n)" for n
  proof (cases "n = 0")
    case True
    with dense none have "length_get db lower upper = None"
      by simp
    with True show ?thesis
      by (simp add: get_def getOwnPropertyDescriptor_def arr lo up)
  next
    case False
    with n dense have "child_row db ?P (n - 1)" and n1: "n - 1 < 2 ^ 32 - 1"
      by simp_all
    with none obtain x where x: "length_get db lower upper = Some x"
      by (cases "length_get db lower upper") auto
    from some [OF x] obtain k where k: "k < 2 ^ 32 - 1" "x = path_bytes (?P @ [Num k])"
      "child_row db ?P k" "\<forall>j < 2 ^ 32 - 1. child_row db ?P j \<longrightarrow> j \<le> k"
      by blast
    from k(1,3) dense have "k < n" by simp
    moreover from k(4) n1 \<open>child_row db ?P (n - 1)\<close> have "n - 1 \<le> k" by blast
    ultimately have kn: "k + 1 = n" by simp
    have "list_all valid_segment (?P @ [Num k])"
      using valid k(1) by simp
    then have "decodePath x = Inr (?P @ [Num k])"
      unfolding k(2) by (rule decodePath_path_bytes)
    with x kn show ?thesis
      by (simp add: get_def getOwnPropertyDescriptor_def arr lo up plus_one_def)
  qed
  from none some len show ?thesis
    by blast
qed

lemma path_bytes_eq_iff:
  "list_all valid_segment p \<Longrightarrow> list_all valid_segment q \<Longrightarrow>
     (path_bytes p = path_bytes q) = (p = q)"
  using path_bytes_inject by blast

theorem C5_array_length_witness:
  "PROTOTYPE \<lparr>PROTOTYPE = ArrayPrototype, PREFIX = [Str (ascii ''a'')], CYCLES = None\<rparr> = ArrayPrototype
   \<and> list_all valid_segment [Str (ascii ''a'')]
   \<and> encodePath [Str (ascii ''a''), Num 0] = Inr [1, 0, 0x61, 0xff, 0xfe, 0, 0, 0, 0, 0]
   \<and> encodePath [Str (ascii ''a''), Num 0xffffffff]
       = Inr [1, 0, 0x61, 0xff, 0xfe, 0, 0xff, 0xff, 0xff, 0xff]
   \<and> length_get \<lparr>rows = [([1, 0, 0x61, 0xff, 0xfe, 0, 0, 0, 0, 0], [0]),
                          ([1, 0, 0x61, 0xff, 0xfe, 0, 0, 0, 0, 1], [0xfe]),
                          ([1, 0, 0x61, 0xff, 0xfe, 0, 0, 0, 0, 1, 0, 0, 0, 0, 7], [0]),
                          ([1, 0, 0x61, 0xff, 0xfe, 1, 0, 0x78, 0xff, 0xfe], [0])],
                  saved = None\<rparr>
         [1, 0, 0x61, 0xff, 0xfe, 0, 0, 0, 0, 0] [1, 0, 0x61, 0xff, 0xfe, 0, 0xff, 0xff, 0xff, 0xff]
       = Some [1, 0, 0x61, 0xff, 0xfe, 0, 0, 0, 0, 1]
   \<and> get ProxyTs example_engine
         \<lparr>PROTOTYPE = ArrayPrototype, PREFIX = [Str (ascii ''a'')], CYCLES = None\<rparr> (ascii ''length'')
         \<lparr>rows = [([1, 0, 0x61, 0xff, 0xfe, 0, 0, 0, 0, 0], [0]),
                  ([1, 0, 0x61, 0xff, 0xfe, 0, 0, 0, 0, 1], [0xfe]),
                  ([1, 0, 0x61, 0xff, 0xfe, 0, 0, 0, 0, 1, 0, 0, 0, 0, 7], [0]),
                  ([1, 0, 0x61, 0xff, 0xfe, 1, 0, 0x78, 0xff, 0xfe], [0])],
           saved = None\<rparr>
       = Inr (Integer 2)"
proof -
  let ?t = "\<lparr>PROTOTYPE = ArrayPrototype, PREFIX = [Str (ascii ''a'')], CYCLES = None\<rparr>"
  let ?db = "\<lparr>rows = [([1, 0, 0x61, 0xff, 0xfe, 0, 0, 0, 0, 0], [0]),
                    ([1, 0, 0x61, 0xff, 0xfe, 0, 0, 0, 0, 1], [0xfe]),
                    ([1, 0, 0x61, 0xff, 0xfe, 0, 0, 0, 0, 1, 0, 0, 0, 0, 7], [0]),
                    ([1, 0, 0x61, 0xff, 0xfe, 1, 0, 0x78, 0xff, 0xfe], [0 :: byte])],
             saved = None\<rparr>"
  have arr: "PROTOTYPE ?t = ArrayPrototype"
    by simp
  have valid: "list_all valid_segment (PREFIX ?t)"
    by (simp add: ascii_def)
  have lo: "encodePath (PREFIX ?t @ [Num 0]) = Inr [1, 0, 0x61, 0xff, 0xfe, 0, 0, 0, 0, 0]"
    by (simp add: encodePath_def ascii_def byte_defs)
  have up: "encodePath (PREFIX ?t @ [Num 0xffffffff])
              = Inr [1, 0, 0x61, 0xff, 0xfe, 0, 0xff, 0xff, 0xff, 0xff]"
    by (simp add: encodePath_def ascii_def byte_defs)
  have keys: "[1, 0, 0x61, 0xff, 0xfe, 0, 0, 0, 0, 0] = path_bytes [Str (ascii ''a''), Num 0]"
    "[1, 0, 0x61, 0xff, 0xfe, 0, 0, 0, 0, 1] = path_bytes [Str (ascii ''a''), Num 1]"
    "[1, 0, 0x61, 0xff, 0xfe, 0, 0, 0, 0, 1, 0, 0, 0, 0, 7]
       = path_bytes [Str (ascii ''a''), Num 1, Num 7]"
    "[1, 0, 0x61, 0xff, 0xfe, 1, 0, 0x78, 0xff, 0xfe]
       = path_bytes [Str (ascii ''a''), Str (ascii ''x'')]"
    by (simp_all add: ascii_def byte_defs)
  have v: "list_all valid_segment [Str (ascii ''a''), Num 0]"
    "list_all valid_segment [Str (ascii ''a''), Num 1]"
    "list_all valid_segment [Str (ascii ''a''), Num 1, Num 7]"
    "list_all valid_segment [Str (ascii ''a''), Str (ascii ''x'')]"
    by (simp_all add: ascii_def)
  have dense: "\<forall>k < 2 ^ 32 - 1. child_row ?db (PREFIX ?t) k = (k < 2)"
  proof (intro allI impI)
    fix k :: nat
    assume k: "k < 2 ^ 32 - 1"
    then have vk: "list_all valid_segment [Str (ascii ''a''), Num k]"
      by (simp add: ascii_def)
    have "child_row ?db (PREFIX ?t) k
            = (selectOne ?db (path_bytes ([Str (ascii ''a'')] @ [Num k])) \<noteq> None)"
      using child_row_iff [OF lo valid, of k ?db] k by simp
    also have "\<dots> = (path_bytes [Str (ascii ''a''), Num k]
                        \<in> {path_bytes [Str (ascii ''a''), Num 0],
                            path_bytes [Str (ascii ''a''), Num 1],
                            path_bytes [Str (ascii ''a''), Num 1, Num 7],
                            path_bytes [Str (ascii ''a''), Str (ascii ''x'')]})"
      by (simp only: selectOne_iff keys [symmetric]) simp
    also have "\<dots> = (k = 0 \<or> k = 1)"
      by (simp only: insert_iff empty_iff path_bytes_eq_iff [OF vk v(1)]
          path_bytes_eq_iff [OF vk v(2)] path_bytes_eq_iff [OF vk v(3)]
          path_bytes_eq_iff [OF vk v(4)]) simp
    also have "\<dots> = (k < 2)"
      by auto
    finally show "child_row ?db (PREFIX ?t) k = (k < 2)" .
  qed
  have lg: "length_get ?db [1, 0, 0x61, 0xff, 0xfe, 0, 0, 0, 0, 0]
              [1, 0, 0x61, 0xff, 0xfe, 0, 0xff, 0xff, 0xff, 0xff]
            = Some [1, 0, 0x61, 0xff, 0xfe, 0, 0, 0, 0, 1]"
    by (simp add: length_get_def in_range_def blob_le_def)
  from C5_array_length [OF arr valid lo up, of ?db ProxyTs example_engine] dense
  have "get ProxyTs example_engine ?t (ascii ''length'') ?db = Inr (Integer 2)"
    by simp
  with arr valid lo up lg show ?thesis
    by simp
qed

section \<open>What a write leaves in the table\<close>

subsection \<open>The row at the path of the write\<close>

lemma map_of_insert_row:
  "map_of rs p = None \<Longrightarrow> map_of (insert_row (p, v) rs) = (map_of rs)(p \<mapsto> v)"
proof (induction rs)
  case Nil
  then show ?case by simp
next
  case (Cons x rs)
  obtain q w where x: "x = (q, w)" by (cases x)
  with Cons.prems have "q \<noteq> p" and "map_of rs p = None"
    by (auto split: if_splits)
  with Cons.IH x show ?case
    by (auto simp add: fun_upd_twist)
qed

lemma selectOne_insert_run:
  "insert_run db p v = Inr db' \<Longrightarrow> selectOne db' q = (if q = p then Some v else selectOne db q)"
  by (auto simp add: insert_run_def selectOne_def map_of_insert_row split: if_splits)


subsection \<open>Where \<open>increment\<close> does bound the subtree\<close>

lemma byte_less_succ: "(a :: byte) \<noteq> 0xff \<Longrightarrow> a < a + 1"
proof -
  assume "a \<noteq> 0xff"
  then have "unat a \<noteq> 255"
    by (simp add: word_unat_eq_iff)
  moreover have "unat a < 256"
    using unsigned_less [of a] by simp
  ultimately have "unat (a + 1) = unat a + 1"
    by (simp add: unat_word_ariths)
  then show ?thesis
    by (simp add: word_less_nat_alt)
qed

lemma increment_nonempty: "b \<noteq> [] \<Longrightarrow> increment rv b = butlast b @ [last b + 1]"
  by (cases rv) simp_all

lemma increment_range:
  assumes "b \<noteq> []" and "last b \<noteq> 0xff"
  shows "blob_less b (increment rv b)" and "in_range b (increment rv b) (b @ x)"
proof -
  have b: "b = butlast b @ [last b]"
    using assms(1) by simp
  have lt: "last b < last b + 1"
    using assms(2) by (rule byte_less_succ)
  have "blob_less (butlast b @ [last b]) (butlast b @ [last b + 1])"
    using lt by simp
  then show "blob_less b (increment rv b)"
    using b assms(1) by (simp add: increment_nonempty)
  have "blob_less (butlast b @ last b # x) (butlast b @ [last b + 1])"
    using lt by simp
  moreover have "butlast b @ last b # x = b @ x"
    using b by (metis append.assoc append_Cons append_Nil)
  moreover have "blob_le b (b @ x)"
    by (cases x) (simp_all add: blob_le_def)
  ultimately show "in_range b (increment rv b) (b @ x)"
    using assms(1) by (simp add: in_range_def increment_nonempty)
qed

lemma last_path_bytes_Str: "last (path_bytes (p @ [Str s])) = 0xfe"
  by (simp add: setUint16_def be_bytes_2)

lemma last_path_bytes_Num: "last (path_bytes (p @ [Num n])) = of_nat n"
  by (simp add: setUint32_def be_bytes_4)

subsection \<open>The row of a composite during the writes of its children\<close>

lemma map_of_filter_key:
  "map_of (filter (\<lambda>r. P (fst r)) xs) k = (if P k then map_of xs k else None)"
  by (induction xs) auto

lemma not_in_range_prefix: "y \<noteq> [] \<Longrightarrow> \<not> in_range (e @ y) u e"
proof -
  assume "y \<noteq> []"
  then obtain a as where "y = a # as" by (cases y) auto
  then have "blob_less e (e @ y)" by simp
  then have "\<not> blob_less (e @ y) e" by (rule blob_less_asym)
  moreover have "e @ y \<noteq> e" using \<open>y \<noteq> []\<close> by simp
  ultimately show ?thesis by (simp add: in_range_def blob_le_def)
qed

lemma selectOne_delete_run:
  "y \<noteq> [] \<Longrightarrow> selectOne (fst (delete_run db (e @ y) u)) e = selectOne db e"
  using map_of_filter_key [where P = "\<lambda>k. \<not> in_range (e @ y) u k" and xs = "rows db" and k = e]
  by (simp add: selectOne_def delete_run_def not_in_range_prefix)

lemma selectOne_saved [simp]: "selectOne (db\<lparr>saved := s\<rparr>) p = selectOne db p"
  by (simp add: selectOne_def)

lemma write_length_keeps:
  assumes "write_length E t desc db = Inr db'" and "path_bytes (PREFIX t) = e @ x"
  shows "selectOne db' e = selectOne db e"
proof -
  from assms(1) obtain len lower upper where
    l: "encodePath (PREFIX t @ [Num len]) = Inr lower" and d: "db' = fst (delete_run db lower upper)"
    by (auto simp add: write_length_def split: sum.splits option.splits if_splits)
  have "lower = e @ (x @ segment_bytes (Num len))"
    using encodePath_Inr [OF l] assms(2) by simp
  then show ?thesis
    using d selectOne_delete_run [of "x @ segment_bytes (Num len)" db e upper] by simp
qed

lemma deleteProperty_keeps:
  assumes "deleteProperty rv t p db = (r, db')" and "path_bytes (PREFIX t) = e @ x"
  shows "selectOne db' e = selectOne db e"
proof (cases "PROTOTYPE t = ArrayPrototype \<and> p = ascii ''length''")
  case True
  with assms(1) show ?thesis by (auto simp add: deleteProperty_def)
next
  case False
  show ?thesis
  proof (cases "encodePath (PREFIX t @ [key p])")
    case (Inl err)
    with False assms(1) show ?thesis by (auto simp add: deleteProperty_def)
  next
    case (Inr encoded)
    have enc: "encoded = e @ (x @ segment_bytes (key p))"
      using encodePath_Inr [OF Inr] assms(2) by simp
    from False Inr assms(1) have "db' = fst (delete_run db encoded (increment rv encoded))"
      by (auto simp add: deleteProperty_def split: prod.splits)
    then show ?thesis
      unfolding enc using selectOne_delete_run [of "x @ segment_bytes (key p)" db e] by simp
  qed
qed

lemma write_scalar_keeps:
  assumes "write_scalar desc (e @ y) db = Inr db'" and "y \<noteq> []"
  shows "selectOne db' e = selectOne db e"
proof -
  from assms(1) obtain bytes where "insert_run db (e @ y) bytes = Inr db'"
    by (auto simp add: write_scalar_def split: sum.splits if_splits)
  from selectOne_insert_run [OF this, of e] assms(2) show ?thesis by simp
qed

lemma write_composite_keeps:
  assumes kt: "keeps_transaction self" and kr: "keeps_row e self"
    and w: "write_composite self rv h target desc prefix (e @ y) a db = (r, c', db')"
    and p: "path_bytes prefix = e @ y" and y: "y \<noteq> []"
  shows "selectOne db' e = selectOne db e"
proof (cases "cycles_has (CYCLES target) a \<or> invalid_descriptor desc")
  case True
  with w show ?thesis
    by (auto simp add: write_composite_def Let_def split: if_splits)
next
  case False
  show ?thesis
  proof (cases "insert_run db (e @ y)
                  (encodeComplex rv (if isArray h (val desc) then ArrayType else RecordType))")
    case (Inl err)
    with False w show ?thesis
      by (auto simp add: write_composite_def Let_def)
  next
    case (Inr db2)
    define t where "t = target\<lparr>PROTOTYPE := (if isArray h (val desc) then ArrayPrototype else NullProto),
                                 PREFIX := prefix\<rparr>"
    define c1 where "c1 = cycles_add (CYCLES target) a"
    have loop: "for_entries (\<lambda>c k v. self (t\<lparr>CYCLES := c\<rparr>) k (set_descriptor t k v))
                  (Some c1) (entries (h a)) db2 = (r, c', db')"
      using False Inr w
      by (simp add: write_composite_def Let_def t_def c1_def)
    have s2: "selectOne db2 e = selectOne db e"
      using selectOne_insert_run [OF Inr, of e] y by simp
    let ?Q = "\<lambda>c d. (\<exists>cs. c = Some cs) \<and> selectOne d e = selectOne db e"
    have "?Q c' db'"
    proof (rule for_entries_invariant [OF loop, where Q = ?Q])
      show "?Q (Some c1) db2"
        using s2 by simp
    next
      fix c k v d r c' d'
      assume q: "?Q c d" and s: "self (t\<lparr>CYCLES := c\<rparr>) k (set_descriptor t k v) d = (r, c', d')"
      from q obtain cs where cs: "c = Some cs" by auto
      have c: "CYCLES (t\<lparr>CYCLES := c\<rparr>) = Some cs"
        using cs by simp
      have pb: "path_bytes (PREFIX (t\<lparr>CYCLES := c\<rparr>)) = e @ y"
        using p by (simp add: t_def)
      from kt c s have "\<exists>cs'. c' = Some cs'"
        unfolding keeps_transaction_def by blast
      moreover from kr c pb s have "selectOne d' e = selectOne d e"
        unfolding keeps_row_def by blast
      ultimately show "?Q c' d'"
        using q by simp
    qed
    then show ?thesis by simp
  qed
qed

lemma try_block_keeps:
  assumes kt: "keeps_transaction self" and kr: "keeps_row e self"
    and c: "CYCLES target = Some c"
    and pt: "path_bytes (PREFIX target) = e @ x"
    and p: "path_bytes prefix = e @ y" and y: "y \<noteq> []"
    and t: "try_block self rv E h target prop desc prefix (e @ y) db = (r, c', db')"
  shows "selectOne db' e = selectOne db e"
proof (cases "PROTOTYPE target = ArrayPrototype \<and> prop = ascii ''length''")
  case True
  with t show ?thesis
    by (auto simp add: try_block_def Let_def c split: sum.splits
        dest: write_length_keeps [OF _ pt])
next
  case False
  show ?thesis
  proof (cases "\<not> isArray h (val desc) \<and> \<not> isRecord h (val desc)")
    case True
    with False t show ?thesis
      by (auto simp add: try_block_def Let_def c split: sum.splits
          dest: write_scalar_keeps [OF _ y])
  next
    case comp: False
    show ?thesis
    proof (cases "val desc")
      case (Ref a)
      with False comp t
      have "write_composite self rv h target desc prefix (e @ y) a db = (r, c', db')"
        by (auto simp add: try_block_def Let_def c)
      from write_composite_keeps [OF kt kr this p y] show ?thesis .
    qed (use False comp t in \<open>auto simp add: try_block_def Let_def c\<close>)
  qed
qed

lemma defineProperty_body_keeps:
  assumes kt: "keeps_transaction self" and kr: "keeps_row e self"
    and c: "CYCLES target = Some c"
    and pt: "path_bytes (PREFIX target) = e @ x"
    and b: "defineProperty_body self rv E h target prop desc db = (r, c', db')"
  shows "selectOne db' e = selectOne db e"
proof (cases "val desc = Undefined")
  case True
  with b show ?thesis
    by (auto simp add: defineProperty_body_def c split: prod.splits sum.splits
        dest: deleteProperty_keeps [OF _ pt])
next
  case False
  show ?thesis
  proof (cases "encodePath (PREFIX target @ [key prop])")
    case (Inl err)
    with False b show ?thesis
      by (auto simp add: defineProperty_body_def c)
  next
    case (Inr encoded)
    define y where "y = x @ segment_bytes (key prop)"
    have y: "y \<noteq> []" by (simp add: y_def)
    have p: "path_bytes (PREFIX target @ [key prop]) = e @ y"
      using pt by (simp add: y_def)
    have enc: "encoded = e @ y"
      using encodePath_Inr [OF Inr] p by simp
    obtain r1 c1 db1 where t: "try_block self rv E h target prop desc
                                  (PREFIX target @ [key prop]) (e @ y) db = (r1, c1, db1)"
      by (metis prod_cases3)
    from try_block_keeps [OF kt kr c pt p y t]
    have "selectOne db1 e = selectOne db e" .
    moreover have "db' = db1"
      using False Inr t b enc
      by (auto simp add: defineProperty_body_def Let_def c split: sum.splits)
    ultimately show ?thesis by simp
  qed
qed

lemma defineProperty_keeps_row: "keeps_row e (defineProperty depth rv E h)"
proof (induction depth)
  case 0
  show ?case
    by (auto simp add: keeps_row_def)
next
  case (Suc depth)
  show ?case
    unfolding keeps_row_def
  proof (intro allI impI)
    fix t p d db r c' db' c x
    assume c: "CYCLES t = Some c" and pt: "path_bytes (PREFIX t) = e @ x"
      and "defineProperty (Suc depth) rv E h t p d db = (r, c', db')"
    then have "defineProperty_body (defineProperty depth rv E h) rv E h t p d db = (r, c', db')"
      by simp
    from defineProperty_body_keeps [OF defineProperty_nested Suc c pt this]
    show "selectOne db' e = selectOne db e" .
  qed
qed

lemma composite_write_marker:
  assumes top: "CYCLES target = None" "saved db = None"
    and nl: "\<not> (PROTOTYPE target = ArrayPrototype \<and> prop = ascii ''length'')"
    and v: "val desc = Ref a"
    and ok: "defineProperty depth rv E h target prop desc db = (Inr True, c, db')"
  shows "selectOne db' (path_bytes (PREFIX target @ [key prop])) = Some (encodeComplex rv (kind (h a)))"
proof (cases depth)
  case 0
  with ok show ?thesis by simp
next
  case (Suc n)
  let ?self = "defineProperty n rv E h"
  let ?prefix = "PREFIX target @ [key prop]"
  let ?e = "path_bytes ?prefix"
  have nu: "val desc \<noteq> Undefined" using v by simp
  from ok Suc have b: "defineProperty_body ?self rv E h target prop desc db = (Inr True, c, db')"
    by simp
  obtain encoded where enc: "encodePath ?prefix = Inr encoded"
    using b nu by (cases "encodePath ?prefix") (auto simp add: defineProperty_body_def top)
  have e: "encoded = ?e"
    using encodePath_Inr [OF enc] .
  define db1 where
    "db1 = fst (delete_run (db\<lparr>saved := Some (rows db)\<rparr>) encoded (increment rv encoded))"
  obtain r1 c1 db3 where t: "try_block ?self rv E h target prop desc ?prefix encoded db = (r1, c1, db3)"
    by (metis prod_cases3)
  have s3: "saved db3 = Some (rows db)"
    using try_block_top [OF defineProperty_nested top t] .
  from defineProperty_body_top [OF top(1) nu enc t s3] b
  have r1: "\<exists>u. r1 = Inr u" and db': "db' = db3\<lparr>saved := None\<rparr>"
    by (cases r1; simp)+
  have w: "write_composite ?self rv h target desc ?prefix encoded a db1 = (r1, c1, db3)"
    using try_block_top_composite [OF top v nl, of ?self rv E h ?prefix encoded] t
    by (simp add: db1_def)
  have valid: "\<not> invalid_descriptor desc"
    using w r1 by (auto simp add: write_composite_top [OF top(1) v] split: if_splits)
  obtain db2 where ins: "insert_run db1 encoded (encodeComplex rv (kind (h a))) = Inr db2"
    using w r1 valid
    by (cases "insert_run db1 encoded (encodeComplex rv (kind (h a)))")
       (auto simp add: write_composite_top [OF top(1) v])
  define t' where "t' = target\<lparr>PROTOTYPE := (if kind (h a) = ArrayType then ArrayPrototype else NullProto),
                                PREFIX := ?prefix\<rparr>"
  have loop: "for_entries (\<lambda>c k v. ?self (t'\<lparr>CYCLES := c\<rparr>) k (set_descriptor t' k v))
                (Some {a}) (entries (h a)) db2 = (r1, c1, db3)"
    using w valid ins by (simp add: write_composite_top [OF top(1) v] t'_def)
  have s2: "selectOne db2 ?e = Some (encodeComplex rv (kind (h a)))"
    using selectOne_insert_run [OF ins, of encoded] e by simp
  let ?Q = "\<lambda>c d. (\<exists>cs. c = Some cs) \<and> selectOne d ?e = Some (encodeComplex rv (kind (h a)))"
  have "?Q c1 db3"
  proof (rule for_entries_invariant [OF loop, where Q = ?Q])
    show "?Q (Some {a}) db2"
      using s2 by simp
  next
    fix c k v d r c' d'
    assume q: "?Q c d" and s: "?self (t'\<lparr>CYCLES := c\<rparr>) k (set_descriptor t' k v) d = (r, c', d')"
    from q obtain cs where cs: "c = Some cs" by auto
    have c: "CYCLES (t'\<lparr>CYCLES := c\<rparr>) = Some cs"
      using cs by simp
    have pb: "path_bytes (PREFIX (t'\<lparr>CYCLES := c\<rparr>)) = ?e @ []"
      by (simp add: t'_def)
    from defineProperty_nested [of n rv E h] c s have "\<exists>cs'. c' = Some cs'"
      unfolding keeps_transaction_def by blast
    moreover from defineProperty_keeps_row [of ?e n rv E h] c pb s
    have "selectOne d' ?e = selectOne d ?e"
      unfolding keeps_row_def by blast
    ultimately show "?Q c' d'"
      using q by simp
  qed
  then show ?thesis
    by (simp add: db')
qed

section \<open>Key normalization\<close>

subsection \<open>Keys that normalize alike\<close>

lemma key_cases: "key prop = Str prop \<or> (\<exists>n. key prop = Num n \<and> n < 2 ^ 32 - 1)"
proof (cases "index_of (StringToNumber prop)")
  case None
  then show ?thesis by (simp add: key_def)
next
  case (Some n)
  then have "n < 0xffffffff"
    by (cases "StringToNumber prop") (auto split: if_splits)
  with Some show ?thesis by (simp add: key_def)
qed

lemma key_Str: "key prop = Str s \<Longrightarrow> s = prop"
  using key_cases [of "prop"] by auto

lemma key_length: "key (ascii ''length'') = Str (ascii ''length'')"
  by (simp add: key_def number_defs)

lemma key_Num_not_length: "key prop = Num n \<Longrightarrow> prop \<noteq> ascii ''length''"
  using key_length by auto

lemma same_key_length:
  assumes "key p1 = key p2"
  shows "(p1 = ascii ''length'') = (p2 = ascii ''length'')"
proof (cases "key p1")
  case (Num n)
  with assms show ?thesis
    using key_Num_not_length [of p1 n] key_Num_not_length [of p2 n] by simp
next
  case (Str s)
  with assms show ?thesis
    using key_Str [of p1 s] key_Str [of p2 s] by simp
qed

lemma defineProperty_same_key:
  assumes "key p1 = key p2"
  shows "defineProperty depth rv E h target p1 desc db
           = defineProperty depth rv E h target p2 desc db"
proof (cases depth)
  case 0
  then show ?thesis by simp
next
  case (Suc d)
  show ?thesis
    unfolding Suc defineProperty.simps defineProperty_body_def try_block_def deleteProperty_def
    by (simp only: assms same_key_length [OF assms])
qed

lemma set_trap_same_key:
  assumes "key p1 = key p2"
  shows "set_trap depth rv E h target p1 v db = set_trap depth rv E h target p2 v db"
proof -
  have "set_descriptor target p1 v = set_descriptor target p2 v"
    by (simp only: set_descriptor_def same_key_length [OF assms])
  then show ?thesis
    by (simp only: set_trap_def defineProperty_same_key [OF assms])
qed

subsection \<open>The row that a write leaves\<close>

lemma set_trap_row:
  assumes top: "CYCLES target = None" "saved db = None"
    and nl: "\<not> (PROTOTYPE target = ArrayPrototype \<and> prop = ascii ''length'')"
    and v: "v \<noteq> Undefined"
    and ok: "set_trap depth rv E h target prop v db = (Inr True, c, db')"
  shows "encodePath (PREFIX target @ [key prop]) = Inr (path_bytes (PREFIX target @ [key prop]))
         \<and> selectOne db' (path_bytes (PREFIX target @ [key prop])) \<noteq> None"
proof -
  let ?desc = "set_descriptor target prop v"
  let ?prefix = "PREFIX target @ [key prop]"
  from ok have d: "defineProperty depth rv E h target prop ?desc db = (Inr True, c, db')"
    by (simp add: set_trap_def)
  have nu: "val ?desc \<noteq> Undefined" using v by simp
  from success_encodes [OF d nu]
  obtain n encoded where depth: "depth = Suc n" and enc: "encodePath ?prefix = Inr encoded"
    by blast
  have e: "encoded = path_bytes ?prefix"
    using encodePath_Inr [OF enc] .
  have "selectOne db' (path_bytes ?prefix) \<noteq> None"
  proof (cases "\<exists>a. v = Ref a")
    case True
    then obtain a where "val ?desc = Ref a" by auto
    from composite_write_marker [OF top nl this d] show ?thesis by simp
  next
    case False
    let ?self = "defineProperty n rv E h"
    have sc: "\<not> isArray h v" "\<not> isRecord h v"
      using False by (cases v; simp)+
    have valid: "\<not> invalid_descriptor ?desc"
      using nl by (simp add: set_descriptor_def invalid_descriptor_def)
    from d depth have b: "defineProperty_body ?self rv E h target prop ?desc db = (Inr True, c, db')"
      by simp
    define db1 where
      "db1 = fst (delete_run (db\<lparr>saved := Some (rows db)\<rparr>) encoded (increment rv encoded))"
    have t: "try_block ?self rv E h target prop ?desc ?prefix encoded db =
               (case write_scalar ?desc encoded db1 of
                  Inl e \<Rightarrow> (Inl e, None, db1)
                | Inr db2 \<Rightarrow> (Inr True, None, db2))"
      unfolding db1_def by (simp add: try_block_def Let_def top nl sc)
    obtain db2 where w: "write_scalar ?desc encoded db1 = Inr db2"
      using b v enc t top
      by (cases "write_scalar ?desc encoded db1")
         (auto simp add: defineProperty_body_def Let_def split: sum.splits)
    from w valid obtain bytes where ins: "insert_run db1 encoded bytes = Inr db2"
      by (auto simp add: write_scalar_def split: sum.splits)
    have "saved db2 = Some (rows db)"
      using insert_run_saved [OF ins] by (simp add: db1_def)
    with b v enc t w top have db': "db' = db2\<lparr>saved := None\<rparr>"
      by (simp add: defineProperty_body_def Let_def)
    have "selectOne db' encoded = Some bytes"
      using selectOne_insert_run [OF ins, of encoded] by (simp add: db' selectOne_def)
    with e show ?thesis by simp
  qed
  with enc e show ?thesis by simp
qed

subsection \<open>Enumeration of a row in the range\<close>

lemma keys_of_rows_mem:
  assumes "keys_of_rows n rs = Inr ks" and "(p, v) \<in> set rs"
    and "decodePath p = Inr decoded" and "length decoded = n + 1"
  shows "String_of_segment (last decoded) \<in> set ks"
  using assms(1,2)
proof (induction rs arbitrary: ks)
  case Nil
  then show ?case by simp
next
  case (Cons r rs)
  obtain p0 v0 where r: "r = (p0, v0)" by (cases r)
  from Cons.prems(1) obtain d0 ks0 where d0: "decodePath p0 = Inr d0"
    and ks0: "keys_of_rows n rs = Inr ks0"
    and ks: "ks = (if length d0 = n + 1 then String_of_segment (last d0) # ks0 else ks0)"
    unfolding r by (auto split: sum.splits)
  show ?case
  proof (cases "(p, v) = r")
    case True
    with r d0 assms(3,4) ks show ?thesis by simp
  next
    case False
    with Cons.prems(2) have "(p, v) \<in> set rs" by simp
    from Cons.IH [OF ks0 this] ks show ?thesis by simp
  qed
qed

lemma entries_of_rows_mem:
  assumes "entries_of_rows rv E n rs = Inr es" and "(p, v) \<in> set rs"
    and "decodePath p = Inr decoded" and "length decoded = n + 1"
  shows "last decoded \<in> fst ` set es"
  using assms(1,2)
proof (induction rs arbitrary: es)
  case Nil
  then show ?case by simp
next
  case (Cons r rs)
  obtain p0 v0 where r: "r = (p0, v0)" by (cases r)
  from Cons.prems(1) obtain d0 where d0: "decodePath p0 = Inr d0"
    unfolding r by (auto split: sum.splits)
  show ?case
  proof (cases "length d0 = n + 1")
    case True
    with Cons.prems(1) d0 obtain pv es0 where es0: "entries_of_rows rv E n rs = Inr es0"
      and es: "es = (last d0, pv) # es0"
      unfolding r by (auto split: sum.splits)
    show ?thesis
    proof (cases "(p, v) = r")
      case True
      with r d0 assms(3) es show ?thesis by simp
    next
      case False
      with Cons.prems(2) have "(p, v) \<in> set rs" by simp
      from Cons.IH [OF es0 this] es show ?thesis by simp
    qed
  next
    case False
    with Cons.prems(1) d0 have es0: "entries_of_rows rv E n rs = Inr es"
      unfolding r by simp
    have "(p, v) \<noteq> r"
      using False r d0 assms(3,4) by auto
    with Cons.prems(2) have "(p, v) \<in> set rs" by simp
    from Cons.IH [OF es0 this] show ?thesis .
  qed
qed

lemma path_bytes_empty: "(path_bytes p = []) = (p = [])"
  by (cases p) simp_all

lemma child_in_range:
  assumes "p = [] \<or> last (path_bytes p) \<noteq> 0xff"
  shows "in_range (path_bytes p) (increment rv (path_bytes p)) (path_bytes (p @ [Num n]))"
proof (cases "p = []")
  case True
  then show ?thesis
    by (cases rv) (simp_all add: in_range_def blob_le_def ZERO_INCREMENT_def)
next
  case False
  with assms have "path_bytes p \<noteq> []" "last (path_bytes p) \<noteq> 0xff"
    by (simp_all add: path_bytes_empty)
  from increment_range(2) [OF this, of rv "segment_bytes (Num n)"] show ?thesis
    by simp
qed

lemma ownKeys_reports_numeric_key:
  assumes top: "CYCLES target = None" "saved db = None"
    and k: "key prop = Num n"
    and v: "v \<noteq> Undefined"
    and valid: "list_all valid_segment (PREFIX target)"
    and good: "PREFIX target = [] \<or> last (path_bytes (PREFIX target)) \<noteq> 0xff"
    and ok: "set_trap depth rv E h target prop v db = (Inr True, c, db')"
    and keys: "ownKeys rv E target db' = Inr ks"
  shows "dec_digits n \<in> set ks"
proof -
  let ?P = "PREFIX target"
  have nl: "\<not> (PROTOTYPE target = ArrayPrototype \<and> prop = ascii ''length'')"
    using key_Num_not_length [OF k] by simp
  from set_trap_row [OF top nl v ok] k
  obtain bytes where row: "selectOne db' (path_bytes (?P @ [Num n])) = Some bytes"
    by auto
  then have mem: "(path_bytes (?P @ [Num n]), bytes) \<in> set (rows db')"
    by (simp add: selectOne_def map_of_SomeD)
  have "n < 2 ^ 32"
    using key_cases [of "prop"] k by auto
  with valid have "list_all valid_segment (?P @ [Num n])" by simp
  then have dec: "decodePath (path_bytes (?P @ [Num n])) = Inr (?P @ [Num n])"
    by (rule decodePath_path_bytes)
  have len: "length (?P @ [Num n]) = length ?P + 1" by simp
  obtain encoded where enc: "encodePath ?P = Inr encoded"
    using keys by (cases rv; cases "encodePath ?P") (auto simp add: Database_entries_def)
  have e: "encoded = path_bytes ?P"
    using encodePath_Inr [OF enc] .
  have sel: "(path_bytes (?P @ [Num n]), bytes) \<in> set (selectMany db' encoded (increment rv encoded))"
    using mem child_in_range [OF good, of rv n] by (simp add: selectMany_def e)
  show ?thesis
  proof (cases rv)
    case TableTs
    with keys enc have "keys_of_rows (length ?P) (selectMany db' encoded (increment TableTs encoded))
                          = Inr ks"
      by simp
    from keys_of_rows_mem [OF this sel [unfolded TableTs] dec len] show ?thesis by simp
  next
    case ProxyTs
    with keys enc obtain es where
      es: "entries_of_rows ProxyTs E (length ?P) (selectMany db' encoded (increment ProxyTs encoded))
             = Inr es"
      and ks: "ks = (if PROTOTYPE target = ArrayPrototype then [ascii ''length''] else [])
                    @ map (\<lambda>e. String_of_segment (fst e)) es"
      by (auto simp add: Database_entries_def split: sum.splits)
    from entries_of_rows_mem [OF es sel [unfolded ProxyTs] dec len]
    have "Num n \<in> fst ` set es" by simp
    then have "String_of_segment (Num n) \<in> (\<lambda>e. String_of_segment (fst e)) ` set es"
      by force
    with ks show ?thesis by simp
  qed
qed

text \<open>
  C10 fails in the enumeration. \<^verbatim>\<open>key\<close> gives the number segment \<open>n\<close> exactly when
  \<^verbatim>\<open>Number(prop)\<close> is the index \<open>n\<close>, so the empty string is the number segment 0,
  \<^verbatim>\<open>"1e3"\<close> is 1000 and \<^verbatim>\<open>"0x10"\<close> is 16; a write under the key \<^verbatim>\<open>""\<close> is the write under the
  key \<^verbatim>\<open>"0"\<close>, in every state; and after \<^verbatim>\<open>table["1e3"] = null\<close> on an empty table the keys
  of the table are \<^verbatim>\<open>["1000"]\<close>. But on the record that \<^verbatim>\<open>table[255]\<close> gives, the same write
  succeeds, its row is at the path \<open>[255, 1000]\<close>, and the keys of the record are \<^verbatim>\<open>[]\<close>:
  \<^verbatim>\<open>ownKeys\<close> bounds its range by \<^verbatim>\<open>increment\<close>, which wraps the last byte \<open>0xFF\<close> of the
  encoded prefix (the defect of C1), so the range is empty. Where the prefix does not end
  in that byte the key is reported, as \<open>ownKeys_reports_numeric_key\<close> shows.
\<close>

theorem C10_enumeration_misses_key:
  "(key prop = Num n) = (index_of (StringToNumber prop) = Some n)
   \<and> key [] = Num 0 \<and> key (ascii ''1e3'') = Num 1000 \<and> key (ascii ''0x10'') = Num 16
   \<and> set_trap depth rv E h target [] v db = set_trap depth rv E h target (ascii ''0'') v db
   \<and> set_trap (Suc 0) rv E h \<lparr>PROTOTYPE = NullProto, PREFIX = [], CYCLES = None\<rparr>
         (ascii ''1e3'') Null \<lparr>rows = [], saved = None\<rparr>
       = (Inr True, None, \<lparr>rows = [([0, 0, 0, 3, 0xe8], [0])], saved = None\<rparr>)
   \<and> ownKeys rv E \<lparr>PROTOTYPE = NullProto, PREFIX = [], CYCLES = None\<rparr>
         \<lparr>rows = [([0, 0, 0, 3, 0xe8], [0])], saved = None\<rparr> = Inr [ascii ''1000'']
   \<and> get rv E \<lparr>PROTOTYPE = NullProto, PREFIX = [], CYCLES = None\<rparr> (ascii ''255'')
         \<lparr>rows = [([0, 0, 0, 0, 0xff], encodeComplex rv RecordType)], saved = None\<rparr>
       = Inr (Proxy NullProto [Num 255])
   \<and> set_trap (Suc 0) rv E h \<lparr>PROTOTYPE = NullProto, PREFIX = [Num 255], CYCLES = None\<rparr>
         (ascii ''1e3'') Null
         \<lparr>rows = [([0, 0, 0, 0, 0xff], encodeComplex rv RecordType)], saved = None\<rparr>
       = (Inr True, None,
          \<lparr>rows = [([0, 0, 0, 0, 0xff], encodeComplex rv RecordType),
                   ([0, 0, 0, 0, 0xff, 0, 0, 0, 3, 0xe8], [0])], saved = None\<rparr>)
   \<and> ownKeys rv E \<lparr>PROTOTYPE = NullProto, PREFIX = [Num 255], CYCLES = None\<rparr>
         \<lparr>rows = [([0, 0, 0, 0, 0xff], encodeComplex rv RecordType),
                  ([0, 0, 0, 0, 0xff, 0, 0, 0, 3, 0xe8], [0])], saved = None\<rparr>
       = Inr []"
proof -
  have kn: "(key prop = Num n) = (index_of (StringToNumber prop) = Some n)"
    by (simp add: key_def split: option.splits)
  have k0: "key [] = key (ascii ''0'')"
    by (simp only: key_empty key_zero)
  have k255: "key (ascii ''255'') = Num 255"
    by (simp add: key_def number_defs)
  have l: "ascii ''255'' \<noteq> ascii ''length''"
    by (simp add: ascii_def)
  have e: "encodePath [Num 255] = Inr [0, 0, 0, 0, 0xff]"
    "encodePath [Num 255, Num 1000] = Inr [0, 0, 0, 0, 0xff, 0, 0, 0, 3, 0xe8]"
    by (simp_all add: encodePath_def byte_defs)
  have g: "get rv E \<lparr>PROTOTYPE = NullProto, PREFIX = [], CYCLES = None\<rparr> (ascii ''255'')
             \<lparr>rows = [([0, 0, 0, 0, 0xff], encodeComplex rv RecordType)], saved = None\<rparr>
           = Inr (Proxy NullProto [Num 255])"
    by (cases rv)
       (simp_all add: get_def getOwnPropertyDescriptor_def k255 e selectOne_def instanciate_def
          tag_defs Let_def)
  have s: "set_trap (Suc 0) rv E h \<lparr>PROTOTYPE = NullProto, PREFIX = [Num 255], CYCLES = None\<rparr>
             (ascii ''1e3'') Null
             \<lparr>rows = [([0, 0, 0, 0, 0xff], encodeComplex rv RecordType)], saved = None\<rparr>
           = (Inr True, None,
              \<lparr>rows = [([0, 0, 0, 0, 0xff], encodeComplex rv RecordType),
                       ([0, 0, 0, 0, 0xff, 0, 0, 0, 3, 0xe8], [0])], saved = None\<rparr>)"
    by (simp add: set_trap_def set_descriptor_def defineProperty_body_def try_block_def key_1e3
        e delete_run_def in_range_def blob_le_def write_scalar_def invalid_descriptor_def
        insert_run_def selectOne_def)
  have o: "ownKeys rv E \<lparr>PROTOTYPE = NullProto, PREFIX = [Num 255], CYCLES = None\<rparr>
             \<lparr>rows = [([0, 0, 0, 0, 0xff], encodeComplex rv RecordType),
                      ([0, 0, 0, 0, 0xff, 0, 0, 0, 3, 0xe8], [0])], saved = None\<rparr>
           = Inr []"
    by (cases rv)
       (simp_all add: e Database_entries_def selectMany_def in_range_def blob_le_def)
  show ?thesis
    by (simp only: kn key_empty key_1e3 key_0x10 set_trap_same_key [OF k0] set_1e3_rows
        ownKeys_after g s o simp_thms)
qed

end
